theory Spec2Isabelle
  imports Main "HOL-Library.AList"
begin

section \<open>Text primitives of the report parser\<close>

text \<open>
  Python strings are modelled as \<^typ>\<open>string\<close>; a character is a code point below 256.
  In that range the white space of \<^verbatim>\<open>str.strip\<close> and of the regular expression class
  \<^verbatim>\<open>\s\<close> is the twelve characters below, and \<^verbatim>\<open>str.splitlines\<close> breaks at nine of them.
\<close>

definition isspace :: "char \<Rightarrow> bool" where
  "isspace c = (of_char c \<in> {9, 10, 11, 12, 13, 28, 29, 30, 31, 32, 133, 160 :: nat})"

definition isdigit :: "char \<Rightarrow> bool" where
  "isdigit c = (let n = of_char c :: nat in 48 \<le> n \<and> n \<le> 57)"

definition islinebreak :: "char \<Rightarrow> bool" where
  "islinebreak c = (of_char c \<in> {10, 11, 12, 13, 28, 29, 30, 133 :: nat})"

definition lower :: "char \<Rightarrow> char" where
  "lower c = (let n = of_char c :: nat in if 65 \<le> n \<and> n \<le> 90 then char_of (n + 32) else c)"

definition strip :: "string \<Rightarrow> string" where
  "strip s = rev (dropWhile isspace (rev (dropWhile isspace s)))"

definition startswith :: "string \<Rightarrow> string \<Rightarrow> bool" where
  "startswith p s = (take (length p) s = p)"

text \<open>\<^verbatim>\<open>str.splitlines()\<close>: \<^verbatim>\<open>\r\n\<close> is one break, and no empty last line is produced.\<close>

fun splitlines_from :: "string \<Rightarrow> string \<Rightarrow> string list" where
  "splitlines_from cur [] = (if cur = [] then [] else [rev cur])"
| "splitlines_from cur (c # cs) =
     (if c = CHR 0x0D then
        (case cs of
           d # ds \<Rightarrow> if d = CHR 0x0A then rev cur # splitlines_from [] ds
                     else rev cur # splitlines_from [] cs
         | [] \<Rightarrow> rev cur # splitlines_from [] cs)
      else if islinebreak c then rev cur # splitlines_from [] cs
      else splitlines_from (c # cur) cs)"

definition splitlines :: "string \<Rightarrow> string list" where
  "splitlines s = splitlines_from [] s"

text \<open>\<^verbatim>\<open>s.replace(a, b)\<close> for single characters, and \<^verbatim>\<open>s.split(sep, 1)\<close>.\<close>

definition replace_char :: "char \<Rightarrow> char \<Rightarrow> string \<Rightarrow> string" where
  "replace_char a b s = map (\<lambda>c. if c = a then b else c) s"

definition split_once :: "char \<Rightarrow> string \<Rightarrow> string list" where
  "split_once sep s =
     (if sep \<in> set s then [takeWhile (\<lambda>c. c \<noteq> sep) s, tl (dropWhile (\<lambda>c. c \<noteq> sep) s)]
      else [s])"

section \<open>The regular expressions of the program\<close>

text \<open>
  The fragment of Python's \<^verbatim>\<open>re\<close> that the patterns of the program use, with its
  backtracking order: a greedy quantifier tries the longest repetition first, a lazy one
  the shortest, an optional group is tried before it is skipped. Quantifiers only apply to
  single-character classes in these patterns. Every pattern is compiled with
  \<^verbatim>\<open>re.IGNORECASE\<close>, so a literal compares lower-cased; \<^verbatim>\<open>re.MULTILINE\<close> is a parameter.
\<close>

datatype cls =
    Ch char
  | Digit
  | Space
  | OneOf string
  | AnyChar

fun cls_match :: "cls \<Rightarrow> char \<Rightarrow> bool" where
  "cls_match (Ch p) c = (lower c = lower p)"
| "cls_match Digit c = isdigit c"
| "cls_match Space c = isspace c"
| "cls_match (OneOf ps) c = (c \<in> set ps)"
| "cls_match AnyChar c = (c \<noteq> CHR 0x0A)"

datatype rx =
    Atom cls
  | Greedy cls nat "nat option"
  | Lazy cls nat
  | Seq rx rx
  | Alt rx rx
  | Opt rx
  | Grp rx
  | Eol

text \<open>\<^verbatim>\<open>$\<close>: at the end, or before a newline that is the last character; with
  \<^verbatim>\<open>re.MULTILINE\<close> before any newline.\<close>

definition at_eol :: "bool \<Rightarrow> string \<Rightarrow> bool" where
  "at_eol multiline s =
     (s = [] \<or> (if multiline then hd s = CHR 0x0A else s = [CHR 0x0A]))"

text \<open>
  A configuration is the input still to be read and the text of group 1, if it has been
  closed. \<open>rx_step\<close> lists the configurations after a match of the expression, in the order
  in which the backtracking matcher finds them.
\<close>

fun rx_step :: "bool \<Rightarrow> rx \<Rightarrow> string \<times> string option \<Rightarrow> (string \<times> string option) list" where
  "rx_step ml (Atom c) (s, g) =
     (case s of [] \<Rightarrow> [] | x # xs \<Rightarrow> if cls_match c x then [(xs, g)] else [])"
| "rx_step ml (Greedy c lo hi) (s, g) =
     (let n = length (takeWhile (cls_match c) s);
          m = (case hi of None \<Rightarrow> n | Some h \<Rightarrow> min h n)
      in map (\<lambda>k. (drop k s, g)) (rev [lo ..< Suc m]))"
| "rx_step ml (Lazy c lo) (s, g) =
     (let n = length (takeWhile (cls_match c) s)
      in map (\<lambda>k. (drop k s, g)) [lo ..< Suc n])"
| "rx_step ml (Seq a b) st = concat (map (rx_step ml b) (rx_step ml a st))"
| "rx_step ml (Alt a b) st = rx_step ml a st @ rx_step ml b st"
| "rx_step ml (Opt a) st = rx_step ml a st @ [st]"
| "rx_step ml (Grp a) (s, g) =
     map (\<lambda>(s', _). (s', Some (take (length s - length s') s))) (rx_step ml a (s, g))"
| "rx_step ml Eol (s, g) = (if at_eol ml s then [(s, g)] else [])"

text \<open>
  \<^verbatim>\<open>pattern.search(text)\<close> and \<^verbatim>\<open>match.group(1)\<close> of its result: the leftmost start
  that has a match, and the first match found there. None of the constructs looks behind,
  so the text before the start plays no role. Group 1 takes part in every match of the
  patterns below.
\<close>

fun rx_search :: "bool \<Rightarrow> rx \<Rightarrow> string \<Rightarrow> string option" where
  "rx_search ml r [] =
     (case rx_step ml r ([], None) of [] \<Rightarrow> None | (_, g) # _ \<Rightarrow> Some (case g of None \<Rightarrow> [] | Some t \<Rightarrow> t))"
| "rx_search ml r (c # cs) =
     (case rx_step ml r (c # cs, None) of
        [] \<Rightarrow> rx_search ml r cs
      | (_, g) # _ \<Rightarrow> Some (case g of None \<Rightarrow> [] | Some t \<Rightarrow> t))"

definition cat :: "rx list \<Rightarrow> rx" where
  "cat rs = foldr Seq (butlast rs) (last rs)"

definition lit :: "string \<Rightarrow> rx" where
  "lit s = cat (map (\<lambda>c. Atom (Ch c)) s)"

text \<open>\<^verbatim>\<open>\d{2}:\d{2}(?:[.,]\d+)?\<close>, the tail that the time patterns share after the hours.\<close>

definition mm_ss :: "bool \<Rightarrow> rx list" where
  "mm_ss frac =
     [Atom (Ch CHR '':''), Greedy Digit 2 (Some 2), Atom (Ch CHR '':''), Greedy Digit 2 (Some 2)]
     @ (if frac then [Opt (Seq (Atom (OneOf ''.,'')) (Greedy Digit 1 None))] else [])"

text \<open>
  The list \<^verbatim>\<open>patterns\<close> of \<^verbatim>\<open>extract_cnc_time\<close>, in the order of the source:
  \<^enum> \<^verbatim>\<open>(?:Cycle\s+)?Time\s*[:=]\s*(\d{1,2}:\d{2}:\d{2}(?:[.,]\d+)?)\<close>
  \<^enum> \<^verbatim>\<open>[;#]TIME[=:]\s*(\d{2}:\d{2}:\d{2}(?:[.,]\d+)?)\<close>
  \<^enum> \<^verbatim>\<open>(?:CUT\s+TIME|RUN\s+TIME)\s+(\d{1,2}:\d{2}:\d{2})\<close>
  \<^enum> \<^verbatim>\<open>\((\d{2}:\d{2}:\d{2}(?:[.,]\d+)?)\)\<close>
  \<^enum> \<^verbatim>\<open>(\d{2}:\d{2}:\d{2}(?:[.,]\d+)?)\s*$\<close>
\<close>

definition patterns :: "rx list" where
  "patterns =
    [ cat [Opt (Seq (lit ''Cycle'') (Greedy Space 1 None)), lit ''Time'', Greedy Space 0 None,
           Atom (OneOf '':=''), Greedy Space 0 None,
           Grp (cat (Greedy Digit 1 (Some 2) # mm_ss True))],
      cat [Atom (OneOf '';#''), lit ''TIME'', Atom (OneOf ''=:''), Greedy Space 0 None,
           Grp (cat (Greedy Digit 2 (Some 2) # mm_ss True))],
      cat [Alt (cat [lit ''CUT'', Greedy Space 1 None, lit ''TIME''])
               (cat [lit ''RUN'', Greedy Space 1 None, lit ''TIME'']),
           Greedy Space 1 None,
           Grp (cat (Greedy Digit 1 (Some 2) # mm_ss False))],
      cat [Atom (Ch CHR ''(''), Grp (cat (Greedy Digit 2 (Some 2) # mm_ss True)),
           Atom (Ch CHR '')'')],
      cat [Grp (cat (Greedy Digit 2 (Some 2) # mm_ss True)), Greedy Space 0 None, Eol] ]"

text \<open>
  \<^verbatim>\<open>extract_cnc_time\<close>: the patterns are searched in order with
  \<^verbatim>\<open>re.MULTILINE | re.IGNORECASE\<close>; the first that matches gives
  \<^verbatim>\<open>match.group(1).replace(",", ".").strip()\<close>.
\<close>

fun first_match :: "rx list \<Rightarrow> string \<Rightarrow> string option" where
  "first_match [] text = None"
| "first_match (p # ps) text =
     (case rx_search True p text of
        Some g \<Rightarrow> Some g
      | None \<Rightarrow> first_match ps text)"

definition extract_cnc_time :: "string \<Rightarrow> string" where
  "extract_cnc_time text =
     (case first_match patterns text of
        Some g \<Rightarrow> strip (replace_char CHR '','' CHR ''.'' g)
      | None \<Rightarrow> ''Brak'')"

text \<open>
  \<^verbatim>\<open>PollingEngine._parse_material\<close>. The candidate line is the first non-blank line, or,
  when that one starts with \<^verbatim>\<open>(\<close> or \<^verbatim>\<open>;\<close>, the first of \<^verbatim>\<open>lines[1:3]\<close> with a hyphen
  that does not start with \<^verbatim>\<open>(\<close>; the \<^verbatim>\<open>else\<close> of the \<^verbatim>\<open>for\<close> loop returns when there is none.
\<close>

definition parse_material :: "string \<Rightarrow> string \<times> string" where
  "parse_material text =
     (let lines = map strip (filter (\<lambda>l. strip l \<noteq> []) (splitlines text)) in
      case lines of
        [] \<Rightarrow> (''Brak'', ''Brak'')
      | line0 # rest \<Rightarrow>
          (case (if startswith ''('' line0 \<or> startswith '';'' line0
                 then find (\<lambda>line. CHR ''-'' \<in> set line \<and> \<not> startswith ''('' line) (take 2 rest)
                 else Some line0) of
             None \<Rightarrow> (''Brak'', ''Brak'')
           | Some first \<Rightarrow>
               if CHR ''-'' \<notin> set first then (take 50 first, ''Brak'')
               else
                 (let parts = split_once CHR ''-'' first;
                      material = take 50 (strip (parts ! 0));
                      grubosc = (if length parts > 1 then take 20 (strip (parts ! 1)) else ''Brak'')
                  in (material, grubosc))))"

section \<open>Time\<close>

text \<open>
  A \<^verbatim>\<open>datetime\<close> is a number of microseconds since a fixed origin and a \<^verbatim>\<open>timedelta\<close> a
  difference of two. \<^verbatim>\<open>int(td.total_seconds())\<close> rounds towards zero; \<^verbatim>\<open>//\<close> and \<^verbatim>\<open>%\<close>
  round down, as \<open>div\<close> and \<open>mod\<close> do.
\<close>

type_synonym datetime = int
type_synonym timedelta = int

definition ARCHIVE_DELAY :: int where
  "ARCHIVE_DELAY = 7 * 60"

definition total_seconds_int :: "timedelta \<Rightarrow> int" where
  "total_seconds_int td = (if 0 \<le> td then td div 1000000 else - ((- td) div 1000000))"

text \<open>\<open>elapsed < d\<close> for \<^verbatim>\<open>elapsed = td.total_seconds()\<close> and a whole number \<open>d\<close> of seconds.\<close>

definition seconds_less :: "timedelta \<Rightarrow> int \<Rightarrow> bool" where
  "seconds_less td d = (td < d * 1000000)"

function decimal :: "nat \<Rightarrow> string" where
  "decimal n = (if n < 10 then [char_of (48 + n)] else decimal (n div 10) @ [char_of (48 + n mod 10)])"
  by pat_completeness auto
termination
  by (relation "measure id") auto

text \<open>The format \<^verbatim>\<open>{:02d}\<close>: at least two characters, zeros after the sign.\<close>

definition fmt02 :: "int \<Rightarrow> string" where
  "fmt02 n =
     (if n < 0 then CHR ''-'' # decimal (nat (- n))
      else if n < 10 then CHR ''0'' # decimal (nat n)
      else decimal (nat n))"

definition format_timedelta :: "timedelta \<Rightarrow> string" where
  "format_timedelta td =
     (let total_seconds = total_seconds_int td;
          hours = total_seconds div 3600;
          minutes = (total_seconds mod 3600) div 60;
          seconds = total_seconds mod 60
      in fmt02 hours @ '':'' @ fmt02 minutes @ '':'' @ fmt02 seconds)"

section \<open>Records, configuration and the state of the engine\<close>

type_synonym path = string
type_synonym bytes = string

text \<open>A modification time is a float in the source; it is only compared for equality.\<close>

type_synonym mtime = int

text \<open>The dataclass \<^verbatim>\<open>FileRecord\<close>; its field \<^verbatim>\<open>id\<close> is \<open>rec_id\<close> here.\<close>

record FileRecord =
  rec_id :: "int option"
  nazwa :: string
  sciezka_a :: path
  sciezka_b :: path
  sciezka_c :: path
  czas_wrzucenia :: datetime
  czas_pobrania :: "datetime option"
  czas_archiwizacji :: "datetime option"
  czas_cyklu_ab :: "string option"
  material :: string
  grubosc :: string
  czas_realny_cnc :: string

record config =
  folder_a :: path
  folder_b :: path
  folder_c :: path
  folder_d :: path

text \<open>The file-system calls that \<^verbatim>\<open>_archive_file\<close> makes are recorded in the order made.\<close>

datatype call =
    Copy2 path path
  | Exists path
  | Getsize path
  | Replace path path
  | Remove path

datatype exn =
    OSError
  | IOError string
  | ValueError
  | KeyError string
  | DatabaseError

text \<open>
  The fields of \<^verbatim>\<open>PollingEngine\<close> (\<open>processed\<close> and \<open>errors\<close> are the entries of
  \<^verbatim>\<open>stats\<close>), followed by what the engine acts on: the regular files on disk with their
  content, the table \<^verbatim>\<open>pliki\<close>, and the calls made so far. \<^verbatim>\<open>waiting\<close> is a dictionary
  whose keys are iterated, so it keeps its insertion order.
\<close>

record state =
  waiting :: "(string \<times> path \<times> datetime) list"
  seen_in_b :: "string \<rightharpoonup> datetime"
  last_b_time :: "datetime option"
  d_cache :: "string \<rightharpoonup> mtime"
  processed :: int
  errors :: int
  files :: "path \<rightharpoonup> bytes"
  db :: "FileRecord list"
  calls :: "call list"

definition init_state :: "(path \<rightharpoonup> bytes) \<Rightarrow> FileRecord list \<Rightarrow> state" where
  "init_state fs rows =
     \<lparr> waiting = [], seen_in_b = Map.empty, last_b_time = None, d_cache = Map.empty,
       processed = 0, errors = 0, files = fs, db = rows, calls = [] \<rparr>"

text \<open>
  A step either returns the state it reached, or raises: then it gives the exception and
  the state at that moment, since what it had changed stays changed.
\<close>

type_synonym result = "exn \<times> state + state"

fun run_steps :: "(state \<Rightarrow> result) list \<Rightarrow> state \<Rightarrow> result" where
  "run_steps [] s = Inr s"
| "run_steps (f # fs) s = (case f s of Inl x \<Rightarrow> Inl x | Inr s' \<Rightarrow> run_steps fs s')"

text \<open>
  \<^verbatim>\<open>os.path.join\<close> of a directory and a name taken from a directory listing (never
  absolute): a separator is added unless the directory is empty or ends in one.
\<close>

definition path_join :: "path \<Rightarrow> string \<Rightarrow> path" where
  "path_join d f =
     (if d = [] \<or> last d \<in> {CHR ''/'', CHR 0x5C, CHR '':''} then d @ f else d @ [CHR 0x5C] @ f)"

section \<open>File-system and store operations\<close>

definition logc :: "call \<Rightarrow> state \<Rightarrow> state" where
  "logc c s = s\<lparr>calls := calls s @ [c]\<rparr>"

text \<open>
  What can go wrong in one archival is given from outside: \<^verbatim>\<open>shutil.copy2\<close> may raise
  (leaving nothing or a partial file at the target) or return having written something else
  than the source then held; another process may delete the temporary or the final file
  before it is checked; \<^verbatim>\<open>os.replace\<close>, \<^verbatim>\<open>os.remove\<close> and \<^verbatim>\<open>Database.insert\<close> may raise.
\<close>

datatype copy_fault = CopyOk | CopyRaises "bytes option" | CopyWrites bytes

record faults =
  copy_fault :: copy_fault
  temp_vanishes :: bool
  replace_raises :: bool
  final_vanishes :: bool
  remove_raises :: bool
  insert_raises :: bool
  cleanup_raises :: bool

definition no_faults :: faults where
  "no_faults =
     \<lparr> copy_fault = CopyOk, temp_vanishes = False, replace_raises = False,
       final_vanishes = False, remove_raises = False, insert_raises = False,
       cleanup_raises = False \<rparr>"

definition copy2 :: "copy_fault \<Rightarrow> path \<Rightarrow> path \<Rightarrow> state \<Rightarrow> result" where
  "copy2 cf src dst s =
     (let s' = logc (Copy2 src dst) s in
      case files s' src of
        None \<Rightarrow> Inl (OSError, s')
      | Some data \<Rightarrow>
          if src = dst then Inl (OSError, s')
          else
            (case cf of
               CopyOk \<Rightarrow> Inr (s'\<lparr>files := (files s')(dst \<mapsto> data)\<rparr>)
             | CopyRaises left \<Rightarrow>
                 Inl (OSError,
                      case left of None \<Rightarrow> s' | Some part \<Rightarrow> s'\<lparr>files := (files s')(dst \<mapsto> part)\<rparr>)
             | CopyWrites other \<Rightarrow> Inr (s'\<lparr>files := (files s')(dst \<mapsto> other)\<rparr>)))"

definition vanish :: "bool \<Rightarrow> path \<Rightarrow> state \<Rightarrow> state" where
  "vanish gone p s = (if gone then s\<lparr>files := (files s)(p := None)\<rparr> else s)"

definition os_replace :: "bool \<Rightarrow> path \<Rightarrow> path \<Rightarrow> state \<Rightarrow> result" where
  "os_replace raises src dst s =
     (let s' = logc (Replace src dst) s in
      case files s' src of
        None \<Rightarrow> Inl (OSError, s')
      | Some data \<Rightarrow>
          if raises then Inl (OSError, s')
          else Inr (s'\<lparr>files := ((files s')(src := None))(dst \<mapsto> data)\<rparr>))"

definition os_remove :: "bool \<Rightarrow> path \<Rightarrow> state \<Rightarrow> result" where
  "os_remove raises p s =
     (let s' = logc (Remove p) s in
      case files s' p of
        None \<Rightarrow> Inl (OSError, s')
      | Some data \<Rightarrow>
          if raises then Inl (OSError, s')
          else Inr (s'\<lparr>files := (files s')(p := None)\<rparr>))"

text \<open>
  \<^verbatim>\<open>Database.insert\<close> appends a row; the store numbers the rows from 1.
  \<^verbatim>\<open>Database.update_cnc_data\<close> rewrites every row of that name and tells whether there
  was one. Time stamps are kept as they are, not as the text the table holds.
\<close>

definition insert_row :: "FileRecord \<Rightarrow> FileRecord list \<Rightarrow> FileRecord list" where
  "insert_row r rows = rows @ [r\<lparr>rec_id := Some (int (length rows) + 1)\<rparr>]"

definition update_cnc_data ::
  "string \<Rightarrow> string \<Rightarrow> string \<Rightarrow> string \<Rightarrow> FileRecord list \<Rightarrow> FileRecord list \<times> bool" where
  "update_cnc_data name mat gru czas rows =
     (map (\<lambda>r. if nazwa r = name
                then r\<lparr>material := mat, grubosc := gru, czas_realny_cnc := czas\<rparr> else r) rows,
      find (\<lambda>r. nazwa r = name) rows \<noteq> None)"

section \<open>The archival transition\<close>

text \<open>The two checks of \<^verbatim>\<open>_archive_file\<close> that raise \<^verbatim>\<open>IOError\<close> themselves, and the size
  comparison (messages without their diacritics).\<close>

definition check_exists :: "bool \<Rightarrow> string \<Rightarrow> path \<Rightarrow> state \<Rightarrow> result" where
  "check_exists gone msg p s =
     (let s' = logc (Exists p) (vanish gone p s) in
      if files s' p = None then Inl (IOError msg, s') else Inr s')"

definition check_size :: "path \<Rightarrow> path \<Rightarrow> state \<Rightarrow> result" where
  "check_size temp_path path_a s =
     (let s1 = logc (Getsize temp_path) s in
      case files s1 temp_path of
        None \<Rightarrow> Inl (OSError, s1)
      | Some t \<Rightarrow>
          (let s2 = logc (Getsize path_a) s1 in
           case files s2 path_a of
             None \<Rightarrow> Inl (OSError, s2)
           | Some a \<Rightarrow>
               if length t \<noteq> length a
               then Inl (IOError ''Rozmiar pliku po kopiowaniu sie nie zgadza'', s2)
               else Inr s2))"

text \<open>Steps 6 to 8: the cycle time, the record, the insert, and the clean-up of the maps.\<close>

definition record_archive ::
  "config \<Rightarrow> bool \<Rightarrow> string \<Rightarrow> datetime \<Rightarrow> path \<Rightarrow> datetime \<Rightarrow> state \<Rightarrow> result" where
  "record_archive cfg raises filename now path_a time_added s =
     (let cycle_time =
            (case last_b_time s of None \<Rightarrow> None | Some t \<Rightarrow> Some (format_timedelta (now - t)));
          s1 = s\<lparr>last_b_time := Some now\<rparr>
      in case seen_in_b s1 filename of
           None \<Rightarrow> Inl (KeyError filename, s1)
         | Some seen \<Rightarrow>
             (let record =
                    \<lparr> rec_id = None, nazwa = filename, sciezka_a = path_a,
                      sciezka_b = path_join (folder_b cfg) filename,
                      sciezka_c = path_join (folder_c cfg) filename,
                      czas_wrzucenia = time_added, czas_pobrania = Some seen,
                      czas_archiwizacji = Some now, czas_cyklu_ab = cycle_time,
                      material = ''Brak'', grubosc = ''Brak'', czas_realny_cnc = ''Brak'' \<rparr>
              in if raises then Inl (DatabaseError, s1)
                 else Inr (s1\<lparr> db := insert_row record (db s1),
                               waiting := AList.delete filename (waiting s1),
                               seen_in_b := (seen_in_b s1)(filename := None),
                               processed := processed s1 + 1 \<rparr>)))"

text \<open>The body of the \<^verbatim>\<open>try\<close>, steps 1 to 8 in the order of the source.\<close>

definition archive_try ::
  "config \<Rightarrow> faults \<Rightarrow> string \<Rightarrow> datetime \<Rightarrow> path \<Rightarrow> datetime \<Rightarrow> state \<Rightarrow> result" where
  "archive_try cfg flt filename now path_a time_added s =
     (let path_c = path_join (folder_c cfg) filename;
          temp_path = path_c @ ''.tmp''
      in run_steps
           [ copy2 (copy_fault flt) path_a temp_path,
             check_exists (temp_vanishes flt) ''Plik tymczasowy nie zostal utworzony'' temp_path,
             check_size temp_path path_a,
             os_replace (replace_raises flt) temp_path path_c,
             check_exists (final_vanishes flt) ''Plik docelowy nie istnieje po rename'' path_c,
             os_remove (remove_raises flt) path_a,
             record_archive cfg (insert_raises flt) filename now path_a time_added ] s)"

text \<open>The handler: count the error and remove the temporary file, ignoring an
  \<^verbatim>\<open>OSError\<close> of that removal.\<close>

definition cleanup :: "bool \<Rightarrow> path \<Rightarrow> state \<Rightarrow> state" where
  "cleanup raises temp_path s =
     (let s1 = logc (Exists temp_path) s in
      if files s1 temp_path \<noteq> None
      then (case os_remove raises temp_path s1 of Inl (e, s2) \<Rightarrow> s2 | Inr s2 \<Rightarrow> s2)
      else s1)"

text \<open>\<^verbatim>\<open>PollingEngine._archive_file\<close>. The look-up in \<^verbatim>\<open>waiting\<close> is outside the \<^verbatim>\<open>try\<close>.\<close>

definition archive_file :: "config \<Rightarrow> faults \<Rightarrow> string \<Rightarrow> datetime \<Rightarrow> state \<Rightarrow> result" where
  "archive_file cfg flt filename now s =
     (case map_of (waiting s) filename of
        None \<Rightarrow> Inl (KeyError filename, s)
      | Some (path_a, time_added) \<Rightarrow>
          (case archive_try cfg flt filename now path_a time_added s of
             Inr s' \<Rightarrow> Inr s'
           | Inl (e, s1) \<Rightarrow>
               Inr (cleanup (cleanup_raises flt)
                      (path_join (folder_c cfg) filename @ ''.tmp'')
                      (s1\<lparr>errors := errors s1 + 1\<rparr>))))"

section \<open>The scans and the tick\<close>

text \<open>
  What one tick observes: directory listings, what the stability check of a file in A reads
  (\<^verbatim>\<open>isfile\<close>, the two sizes, \<open>None\<close> for an \<^verbatim>\<open>OSError\<close>, and the clock when it is added),
  the clock of the scan of B and the faults of each archival, the modification time and the
  decoded content of a report (\<open>None\<close> when the call raises), whether the update of a
  name in the store raises, and what other processes did to the files since the last tick.
\<close>

datatype listing = Listing "string list" | ListingError

record probe =
  is_file :: bool
  size_before :: "nat option"
  size_after :: "nat option"
  added :: datetime

record env =
  listdir :: "path \<Rightarrow> listing"
  probe_a :: "string \<Rightarrow> probe"
  now_b :: datetime
  faults_b :: "string \<Rightarrow> faults"
  mtime_d :: "string \<Rightarrow> mtime option"
  read_d :: "string \<Rightarrow> string option"
  update_raises :: "string \<Rightarrow> bool"
  outside :: "(path \<rightharpoonup> bytes) \<Rightarrow> (path \<rightharpoonup> bytes)"

text \<open>\<^verbatim>\<open>os.listdir\<close> raises \<^verbatim>\<open>ValueError\<close> on a path with a NUL character and
  \<^verbatim>\<open>OSError\<close> when the directory cannot be read; \<^verbatim>\<open>_safe_listdir\<close> catches the latter only.\<close>

definition os_listdir :: "(path \<Rightarrow> listing) \<Rightarrow> path \<Rightarrow> exn + string list" where
  "os_listdir ls p =
     (if CHR 0x00 \<in> set p then Inl ValueError
      else case ls p of ListingError \<Rightarrow> Inl OSError | Listing names \<Rightarrow> Inr names)"

definition safe_listdir :: "(path \<Rightarrow> listing) \<Rightarrow> path \<Rightarrow> exn + string list" where
  "safe_listdir ls p =
     (case os_listdir ls p of
        Inr names \<Rightarrow> Inr names
      | Inl e \<Rightarrow> if e = OSError then Inr [] else Inl e)"

text \<open>\<^verbatim>\<open>ISO_PATTERN\<close> \<^verbatim>\<open>\.iso$\<close>, \<^verbatim>\<open>TXT_PATTERN\<close> \<^verbatim>\<open>\.txt$\<close> and \<^verbatim>\<open>ISO_EXTRACT_PATTERN\<close>
  \<^verbatim>\<open>#(.+?)\.iso\.txt$\<close>, all with \<^verbatim>\<open>re.IGNORECASE\<close> only.\<close>

definition ISO_PATTERN :: rx where
  "ISO_PATTERN = cat [lit ''.iso'', Eol]"

definition TXT_PATTERN :: rx where
  "TXT_PATTERN = cat [lit ''.txt'', Eol]"

definition ISO_EXTRACT_PATTERN :: rx where
  "ISO_EXTRACT_PATTERN = cat [Atom (Ch CHR ''#''), Grp (Lazy AnyChar 1), lit ''.iso.txt'', Eol]"

text \<open>The body of the loop of \<^verbatim>\<open>_process_folder_a\<close>, and the scan.\<close>

definition a_file :: "config \<Rightarrow> (string \<Rightarrow> probe) \<Rightarrow> string \<Rightarrow> state \<Rightarrow> state" where
  "a_file cfg pr filename s =
     (if rx_search False ISO_PATTERN filename = None then s
      else if map_of (waiting s) filename \<noteq> None then s
      else
        (let full_path = path_join (folder_a cfg) filename; p = pr filename in
         if \<not> is_file p then s
         else
           (case size_before p of
              None \<Rightarrow> s
            | Some initial_size \<Rightarrow>
                (case size_after p of
                   None \<Rightarrow> s
                 | Some size2 \<Rightarrow>
                     if size2 \<noteq> initial_size then s
                     else s\<lparr>waiting := AList.update filename (full_path, added p) (waiting s)\<rparr>))))"

definition process_folder_a :: "config \<Rightarrow> env \<Rightarrow> state \<Rightarrow> result" where
  "process_folder_a cfg e s =
     (case safe_listdir (listdir e) (folder_a cfg) of
        Inl x \<Rightarrow> Inl (x, s)
      | Inr names \<Rightarrow> Inr (foldl (\<lambda>t filename. a_file cfg (probe_a e) filename t) s names))"

text \<open>The body of the loop of \<^verbatim>\<open>_process_folder_b\<close>; the loop runs over the keys that
  \<^verbatim>\<open>waiting\<close> has when the scan starts.\<close>

definition b_file :: "config \<Rightarrow> (string \<Rightarrow> faults) \<Rightarrow> datetime \<Rightarrow> string \<Rightarrow> state \<Rightarrow> result" where
  "b_file cfg flt now filename s =
     (let path_b = path_join (folder_b cfg) filename in
      if files s path_b = None then Inr s
      else
        (case seen_in_b s filename of
           None \<Rightarrow> Inr (s\<lparr>seen_in_b := (seen_in_b s)(filename \<mapsto> now)\<rparr>)
         | Some seen \<Rightarrow>
             if seconds_less (now - seen) ARCHIVE_DELAY then Inr s
             else archive_file cfg (flt filename) filename now s))"

definition process_folder_b :: "config \<Rightarrow> env \<Rightarrow> state \<Rightarrow> result" where
  "process_folder_b cfg e s =
     run_steps (map (b_file cfg (faults_b e) (now_b e)) (map fst (waiting s))) s"

text \<open>The body of the first loop of \<^verbatim>\<open>_process_folder_d\<close>: it extends the list
  \<^verbatim>\<open>updates\<close> of tuples (material, thickness, time, name) and the cache.\<close>

type_synonym cnc_update = "string \<times> string \<times> string \<times> string"

definition d_file :: "env \<Rightarrow> string \<Rightarrow> state \<times> cnc_update list \<Rightarrow> state \<times> cnc_update list" where
  "d_file e filename acc =
     (let s = fst acc; updates = snd acc in
      if rx_search False TXT_PATTERN filename = None then acc
      else
        (case mtime_d e filename of
           None \<Rightarrow> acc
         | Some mt \<Rightarrow>
             if d_cache s filename = Some mt then acc
             else
               (let s1 = s\<lparr>d_cache := (d_cache s)(filename \<mapsto> mt)\<rparr> in
                case rx_search False ISO_EXTRACT_PATTERN filename of
                  None \<Rightarrow> (s1, updates)
                | Some g \<Rightarrow>
                    (let iso_name = g @ ''.iso'' in
                     case read_d e filename of
                       None \<Rightarrow> (s1, updates)
                     | Some content \<Rightarrow>
                         (let mg = parse_material content;
                              cnc_time = extract_cnc_time content
                          in (s1, updates @ [(fst mg, snd mg, cnc_time, iso_name)]))))))"

definition scan_d :: "env \<Rightarrow> string list \<Rightarrow> state \<Rightarrow> state \<times> cnc_update list" where
  "scan_d e names s = foldl (\<lambda>acc filename. d_file e filename acc) (s, []) names"

text \<open>The batch update: one call of \<^verbatim>\<open>Database.update_cnc_data\<close> per tuple, not guarded.\<close>

definition apply_update :: "(string \<Rightarrow> bool) \<Rightarrow> cnc_update \<Rightarrow> state \<Rightarrow> result" where
  "apply_update raises u s =
     (case u of (mat, gru, cnc_time, iso_name) \<Rightarrow>
        if raises iso_name then Inl (DatabaseError, s)
        else Inr (s\<lparr>db := fst (update_cnc_data iso_name mat gru cnc_time (db s))\<rparr>))"

definition process_folder_d :: "config \<Rightarrow> env \<Rightarrow> state \<Rightarrow> result" where
  "process_folder_d cfg e s =
     (case safe_listdir (listdir e) (folder_d cfg) of
        Inl x \<Rightarrow> Inl (x, s)
      | Inr names \<Rightarrow>
          (let r = scan_d e names s
           in run_steps (map (apply_update (update_raises e)) (snd r)) (fst r)))"

text \<open>
  One iteration of the loop of \<^verbatim>\<open>_run\<close>: the three scans inside one \<^verbatim>\<open>try\<close>, whose
  handler counts an error. The loop itself runs one tick per observation, for as long as
  the stop event is not set.
\<close>

definition tick :: "config \<Rightarrow> env \<Rightarrow> state \<Rightarrow> state" where
  "tick cfg e s =
     (case run_steps [process_folder_a cfg e, process_folder_b cfg e, process_folder_d cfg e] s of
        Inr s' \<Rightarrow> s'
      | Inl (x, s') \<Rightarrow> s'\<lparr>errors := errors s' + 1\<rparr>)"

fun run :: "config \<Rightarrow> env list \<Rightarrow> state \<Rightarrow> state" where
  "run cfg [] s = s"
| "run cfg (e # es) s = run cfg es (tick cfg e (s\<lparr>files := outside e (files s)\<rparr>))"

section \<open>Notions used in the statements\<close>

text \<open>The state a step ends in, whether it returned or raised, and the exception if it
  raised.\<close>

definition final :: "result \<Rightarrow> state" where
  "final r = (case r of Inl x \<Rightarrow> snd x | Inr s \<Rightarrow> s)"

definition raised :: "result \<Rightarrow> exn option" where
  "raised r = (case r of Inl x \<Rightarrow> Some (fst x) | Inr s \<Rightarrow> None)"

text \<open>The part of the state that the file operations never touch.\<close>

definition tracked ::
  "state \<Rightarrow> (string \<times> path \<times> datetime) list \<times> (string \<rightharpoonup> datetime) \<times> (string \<rightharpoonup> mtime)
     \<times> int \<times> int \<times> FileRecord list" where
  "tracked s = (waiting s, seen_in_b s, d_cache s, processed s, errors s, db s)"

text \<open>The calls of a complete archival of \<open>path_a\<close> into \<open>path_c\<close>, in order.\<close>

definition archive_calls :: "path \<Rightarrow> path \<Rightarrow> call list" where
  "archive_calls path_a path_c =
     [ Copy2 path_a (path_c @ ''.tmp''), Exists (path_c @ ''.tmp''),
       Getsize (path_c @ ''.tmp''), Getsize path_a,
       Replace (path_c @ ''.tmp'') path_c, Exists path_c, Remove path_a ]"

text \<open>A step makes the calls \<open>c\<close>: all of them when it returns, the first few when it raises.\<close>

definition makes_calls :: "(state \<Rightarrow> result) \<Rightarrow> call list \<Rightarrow> bool" where
  "makes_calls f c =
     (\<forall>s. (\<exists>k. calls (final (f s)) = calls s @ take k c)
        \<and> (raised (f s) = None \<longrightarrow> calls (final (f s)) = calls s @ c))"

text \<open>The keys of \<^verbatim>\<open>waiting\<close> are distinct, as those of a dictionary are, and every file
  with a sighting in B is a key of \<^verbatim>\<open>waiting\<close>.\<close>

definition keys_ok :: "state \<Rightarrow> bool" where
  "keys_ok s =
     (distinct (map fst (waiting s)) \<and> dom (seen_in_b s) \<subseteq> fst ` set (waiting s))"

text \<open>Steps 1 to 4 of the archival: the copy, its two checks, the rename and its check.\<close>

definition verified_copy :: "config \<Rightarrow> faults \<Rightarrow> string \<Rightarrow> path \<Rightarrow> (state \<Rightarrow> result) list" where
  "verified_copy cfg flt filename path_a =
     [ copy2 (copy_fault flt) path_a (path_join (folder_c cfg) filename @ ''.tmp''),
       check_exists (temp_vanishes flt) ''Plik tymczasowy nie zostal utworzony''
         (path_join (folder_c cfg) filename @ ''.tmp''),
       check_size (path_join (folder_c cfg) filename @ ''.tmp'') path_a,
       os_replace (replace_raises flt) (path_join (folder_c cfg) filename @ ''.tmp'')
         (path_join (folder_c cfg) filename),
       check_exists (final_vanishes flt) ''Plik docelowy nie istnieje po rename''
         (path_join (folder_c cfg) filename) ]"

text \<open>
  Two syntactic properties of an expression: every character class in it satisfies \<open>Q\<close>,
  and every character class inside a group of it does. \<open>time_cls\<close> holds of the classes
  in the groups of the time patterns, \<open>time_char\<close> of the characters these match.
\<close>

fun consumes :: "(cls \<Rightarrow> bool) \<Rightarrow> rx \<Rightarrow> bool" where
  "consumes Q (Atom c) = Q c"
| "consumes Q (Greedy c lo hi) = Q c"
| "consumes Q (Lazy c lo) = Q c"
| "consumes Q (Seq a b) = (consumes Q a \<and> consumes Q b)"
| "consumes Q (Alt a b) = (consumes Q a \<and> consumes Q b)"
| "consumes Q (Opt a) = consumes Q a"
| "consumes Q (Grp a) = consumes Q a"
| "consumes Q Eol = True"

fun groups_in :: "(cls \<Rightarrow> bool) \<Rightarrow> rx \<Rightarrow> bool" where
  "groups_in Q (Seq a b) = (groups_in Q a \<and> groups_in Q b)"
| "groups_in Q (Alt a b) = (groups_in Q a \<and> groups_in Q b)"
| "groups_in Q (Opt a) = groups_in Q a"
| "groups_in Q (Grp a) = consumes Q a"
| "groups_in Q r = True"

definition time_cls :: "cls \<Rightarrow> bool" where
  "time_cls c = (c = Digit \<or> c = Ch CHR '':'' \<or> c = OneOf ''.,'')"

definition time_char :: "char \<Rightarrow> bool" where
  "time_char c = (isdigit c \<or> c \<in> set '':.,'')"

text \<open>
  The two fields read off a chosen line: without a hyphen the line itself, cut to 50
  characters, and no thickness; otherwise what is left and right of the first hyphen,
  trimmed and cut to 50 and 20 characters.
\<close>

definition fields_of :: "string \<Rightarrow> string \<times> string" where
  "fields_of line =
     (if CHR ''-'' \<notin> set line then (take 50 line, ''Brak'')
      else (take 50 (strip (takeWhile (\<lambda>c. c \<noteq> CHR ''-'') line)),
            take 20 (strip (tl (dropWhile (\<lambda>c. c \<noteq> CHR ''-'') line)))))"

text \<open>
  A path that no tracked file reads or writes in an archival: it is not the intake path
  of a tracked file, nor its archive path, nor the temporary path beside that.
\<close>

definition clear_of :: "config \<Rightarrow> state \<Rightarrow> path \<Rightarrow> bool" where
  "clear_of cfg s p =
     (\<forall>x\<in>set (waiting s). p \<noteq> fst (snd x) \<and> p \<noteq> path_join (folder_c cfg) (fst x)
        \<and> p \<noteq> path_join (folder_c cfg) (fst x) @ ''.tmp'')"

text \<open>
  What a step of the scan of B leaves alone for a file \<open>f\<close> it is not about: the sighting
  and the entry of \<open>f\<close>, the number of copies of \<open>f\<close> called so far and, when its path
  in B is clear of the other tracked files, the file at that path.
\<close>

definition untouched :: "config \<Rightarrow> string \<Rightarrow> path \<Rightarrow> state \<Rightarrow> state \<Rightarrow> bool" where
  "untouched cfg f x t t' =
     (seen_in_b t' f = seen_in_b t f \<and> map_of (waiting t') f = map_of (waiting t) f
      \<and> count_list (calls t') (Copy2 x (path_join (folder_c cfg) f @ ''.tmp''))
          = count_list (calls t) (Copy2 x (path_join (folder_c cfg) f @ ''.tmp''))
      \<and> (clear_of cfg t (path_join (folder_b cfg) f)
           \<longrightarrow> files t' (path_join (folder_b cfg) f) = files t (path_join (folder_b cfg) f)
               \<and> clear_of cfg t' (path_join (folder_b cfg) f)))"

text \<open>The same observation of the folders, with the file \<open>f\<close> absent from every listing.\<close>

definition without :: "string \<Rightarrow> env \<Rightarrow> env" where
  "without f e =
     e\<lparr>listdir := (\<lambda>p. case listdir e p of
                          Listing names \<Rightarrow> Listing (removeAll f names)
                        | ListingError \<Rightarrow> ListingError)\<rparr>"

section \<open>Concrete inputs\<close>

text \<open>
  A shop with four folders. In \<open>shop_state\<close> the file \<^verbatim>\<open>job2.iso\<close> is tracked; it was first
  seen in B at second 500, and the previous archival was at second 420.
\<close>

definition shop :: config where
  "shop = \<lparr> folder_a = ''A/'', folder_b = ''B/'', folder_c = ''C/'', folder_d = ''D/'' \<rparr>"

definition shop_files :: "path \<rightharpoonup> bytes" where
  "shop_files = [''A/job2.iso'' \<mapsto> ''G1 X10'', ''B/job2.iso'' \<mapsto> ''G1 X10'']"

definition shop_state :: state where
  "shop_state =
     (init_state shop_files [])
       \<lparr> waiting := [(''job2.iso'', ''A/job2.iso'', 400000000)],
         seen_in_b := [''job2.iso'' \<mapsto> 500000000],
         last_b_time := Some 420000000 \<rparr>"

text \<open>
  Five ticks of that shop, from the start of the engine: \<^verbatim>\<open>job1.iso\<close> is in A and B at
  second 0, \<^verbatim>\<open>job2.iso\<close> arrives in A at second 400, \<^verbatim>\<open>job1.iso\<close> is archived at second
  420, \<^verbatim>\<open>job2.iso\<close> reaches B at second 500 and is archived at second 920.
\<close>

definition quiet :: env where
  "quiet =
     \<lparr> listdir = (\<lambda>p. Listing []),
       probe_a = (\<lambda>f. \<lparr> is_file = True, size_before = Some 6, size_after = Some 6, added = 0 \<rparr>),
       now_b = 0, faults_b = (\<lambda>f. no_faults), mtime_d = (\<lambda>f. None), read_d = (\<lambda>f. None),
       update_raises = (\<lambda>f. False), outside = (\<lambda>fs. fs) \<rparr>"


text \<open>
  A tick in which folder D holds a report for \<^verbatim>\<open>job1.iso\<close> and a file that does not follow
  the naming convention; a store that already has a row for \<^verbatim>\<open>job1.iso\<close>; and a configuration
  whose intake path has a NUL character in it.
\<close>

definition report_tick :: env where
  "report_tick =
     quiet\<lparr> listdir := (\<lambda>p. if p = ''D/'' then Listing [''#job1.iso.txt'', ''notes.txt'']
                            else Listing []),
            mtime_d := (\<lambda>f. Some 7),
            read_d := (\<lambda>f. if f = ''#job1.iso.txt'' then Some ''STEEL-3MM'' else None) \<rparr>"

definition old_rows :: "FileRecord list" where
  "old_rows =
     [ \<lparr> rec_id = Some 1, nazwa = ''job1.iso'', sciezka_a = ''A/job1.iso'',
         sciezka_b = ''B/job1.iso'', sciezka_c = ''C/job1.iso'', czas_wrzucenia = 0,
         czas_pobrania = Some 0, czas_archiwizacji = Some 420000000, czas_cyklu_ab = None,
         material = ''Brak'', grubosc = ''Brak'', czas_realny_cnc = ''Brak'' \<rparr> ]"

definition shop_nul :: config where
  "shop_nul = shop\<lparr> folder_a := ''A'' @ [CHR 0x00] \<rparr>"

text \<open>
  A queue of three tracked files that are all in B at second 920: \<^verbatim>\<open>job2.iso\<close> was first
  seen there 420 seconds before, \<^verbatim>\<open>job3.iso\<close> 320 seconds before, \<^verbatim>\<open>job4.iso\<close> not yet.
\<close>

definition shop_queue :: state where
  "shop_queue =
     (init_state [''A/job2.iso'' \<mapsto> ''G1 X10'', ''B/job2.iso'' \<mapsto> ''G1 X10'',
                  ''A/job3.iso'' \<mapsto> ''G2 X20'', ''B/job3.iso'' \<mapsto> ''G2 X20'',
                  ''A/job4.iso'' \<mapsto> ''G3 X30'', ''B/job4.iso'' \<mapsto> ''G3 X30''] [])
       \<lparr> waiting := [(''job2.iso'', ''A/job2.iso'', 400000000),
                     (''job3.iso'', ''A/job3.iso'', 450000000),
                     (''job4.iso'', ''A/job4.iso'', 900000000)],
         seen_in_b := [''job2.iso'' \<mapsto> 500000000, ''job3.iso'' \<mapsto> 600000000],
         last_b_time := Some 420000000 \<rparr>"

definition at_920 :: env where
  "at_920 = quiet\<lparr> now_b := 920000000 \<rparr>"

text \<open>
  The tick of second 920 with the reports in D, in which the rename of every archival
  fails; and the tick with the reports in which no report can be read.
\<close>

definition failing_tick :: env where
  "failing_tick =
     report_tick\<lparr> now_b := 920000000,
                  faults_b := (\<lambda>f. no_faults\<lparr> replace_raises := True \<rparr>) \<rparr>"

definition unreadable :: env where
  "unreadable = report_tick\<lparr> read_d := (\<lambda>f. None) \<rparr>"

section \<open>Steps and their effects\<close>

lemma final_simps [simp]: "final (Inl x) = snd x" "final (Inr s) = s"
  by (simp_all add: final_def)

lemma raised_simps [simp]: "raised (Inl x) = Some (fst x)" "raised (Inr s) = None"
  by (simp_all add: raised_def)

lemma run_steps_keeps:
  assumes "\<And>f t. f \<in> set fs \<Longrightarrow> g (final (f t)) = g t"
  shows "g (final (run_steps fs s)) = g s"
  using assms
proof (induction fs arbitrary: s)
  case Nil
  then show ?case by simp
next
  case (Cons f fs)
  have a: "g (final (f s)) = g s" using Cons.prems by simp
  show ?case
  proof (cases "f s")
    case (Inl x)
    then show ?thesis using a by (cases x) simp
  next
    case (Inr s')
    have "g (final (run_steps fs s')) = g s'" using Cons by simp
    then show ?thesis using a Inr by simp
  qed
qed

lemma run_steps_calls:
  assumes "list_all2 makes_calls fs cs"
  shows "(\<exists>k. calls (final (run_steps fs s)) = calls s @ take k (concat cs))
       \<and> (raised (run_steps fs s) = None \<longrightarrow> calls (final (run_steps fs s)) = calls s @ concat cs)"
  using assms
proof (induction fs cs arbitrary: s rule: list_all2_induct)
  case Nil
  then show ?case by simp
next
  case (Cons f fs c cs)
  note mc = Cons.hyps(1)[unfolded makes_calls_def, THEN spec, of s]
  from mc obtain k where k: "calls (final (f s)) = calls s @ take k c"
    by (elim conjE exE)
  show ?case
  proof (cases "f s")
    case (Inl x)
    have "calls (final (run_steps (f # fs) s)) = calls (final (f s))"
      using Inl by simp
    also have "\<dots> = calls s @ take (min k (length c)) (concat (c # cs))"
      using k by (simp add: min_def)
    finally have "\<exists>j. calls (final (run_steps (f # fs) s)) = calls s @ take j (concat (c # cs))"
      by (rule exI)
    moreover have "raised (run_steps (f # fs) s) \<noteq> None"
      using Inl by (cases x) simp
    ultimately show ?thesis by blast
  next
    case (Inr t)
    then have t: "calls t = calls s @ c"
      using mc by simp
    note ih = Cons.IH[of t]
    from ih obtain k' where k': "calls (final (run_steps fs t)) = calls t @ take k' (concat cs)"
      by (elim conjE exE)
    from ih have all: "raised (run_steps fs t) = None \<longrightarrow>
        calls (final (run_steps fs t)) = calls t @ concat cs"
      by (elim conjE)
    have same: "run_steps (f # fs) s = run_steps fs t"
      using Inr by simp
    have "calls (final (run_steps (f # fs) s)) = calls s @ take (length c + k') (concat (c # cs))"
      unfolding same using k' t by simp
    then have A: "\<exists>j. calls (final (run_steps (f # fs) s)) = calls s @ take j (concat (c # cs))"
      by (rule exI)
    have B: "raised (run_steps (f # fs) s) = None \<longrightarrow>
        calls (final (run_steps (f # fs) s)) = calls s @ concat (c # cs)"
      unfolding same using all t by simp
    show ?thesis using A B by (rule conjI)
  qed
qed

text \<open>What each file operation leaves alone.\<close>

lemma copy2_tracked: "tracked (final (copy2 cf a b s)) = tracked s"
  by (simp add: copy2_def logc_def tracked_def Let_def split: option.splits copy_fault.splits)

lemma check_exists_tracked: "tracked (final (check_exists gone msg p s)) = tracked s"
  by (simp add: check_exists_def vanish_def logc_def tracked_def Let_def)

lemma check_size_tracked: "tracked (final (check_size a b s)) = tracked s"
  by (simp add: check_size_def logc_def tracked_def Let_def split: option.splits)

lemma os_replace_tracked: "tracked (final (os_replace r a b s)) = tracked s"
  by (simp add: os_replace_def logc_def tracked_def Let_def split: option.splits)

lemma os_remove_tracked: "tracked (final (os_remove r p s)) = tracked s"
  by (simp add: os_remove_def logc_def tracked_def Let_def split: option.splits)






lemma copy2_files: "p \<noteq> b \<Longrightarrow> files (final (copy2 cf a b s)) p = files s p"
  by (simp add: copy2_def logc_def Let_def split: option.splits copy_fault.splits)

lemma check_exists_files: "p \<noteq> q \<Longrightarrow> files (final (check_exists gone msg q s)) p = files s p"
  by (simp add: check_exists_def vanish_def logc_def Let_def)

lemma check_size_files: "files (final (check_size a b s)) = files s"
  by (simp add: check_size_def logc_def Let_def split: option.splits)

lemma os_replace_files: "p \<noteq> a \<Longrightarrow> p \<noteq> b \<Longrightarrow> files (final (os_replace r a b s)) p = files s p"
  by (simp add: os_replace_def logc_def Let_def split: option.splits)

lemma os_remove_files: "p \<noteq> q \<Longrightarrow> files (final (os_remove r q s)) p = files s p"
  by (simp add: os_remove_def logc_def Let_def split: option.splits)

text \<open>What each operation has established when it returns.\<close>

lemma check_exists_Inr:
  "check_exists gone msg p s = Inr t \<Longrightarrow> files t = files s \<and> files s p \<noteq> None"
  by (auto simp: check_exists_def vanish_def logc_def Let_def split: if_splits)

lemma check_size_Inr:
  "check_size a b s = Inr t \<Longrightarrow>
     files t = files s \<and> (\<exists>x y. files s a = Some x \<and> files s b = Some y \<and> length x = length y)"
  by (auto simp: check_size_def logc_def Let_def split: option.splits if_splits)

lemma os_replace_Inr:
  "os_replace r a b s = Inr t \<Longrightarrow> files t = ((files s)(a := None))(b := files s a) \<and> files s a \<noteq> None"
  by (auto simp: os_replace_def logc_def Let_def split: option.splits if_splits)

lemma os_remove_Inl: "os_remove r q s = Inl (e, t) \<Longrightarrow> files t = files s \<and> e = OSError"
  by (auto simp: os_remove_def logc_def Let_def split: option.splits if_splits)

lemma record_archive_Inl:
  "record_archive cfg r f now pa ta s = Inl (e, t) \<Longrightarrow>
     tracked t = tracked s \<and> files t = files s \<and> calls t = calls s
     \<and> (e = DatabaseError \<or> e = KeyError f)"
  by (auto simp: record_archive_def tracked_def Let_def split: option.splits if_splits)

lemma record_archive_Inr:
  "record_archive cfg r f now pa ta s = Inr t \<Longrightarrow>
     files t = files s \<and> calls t = calls s \<and> errors t = errors s
     \<and> processed t = processed s + 1 \<and> last_b_time t = Some now
     \<and> waiting t = AList.delete f (waiting s) \<and> seen_in_b t = (seen_in_b s)(f := None)
     \<and> d_cache t = d_cache s
     \<and> (\<exists>row. db t = db s @ [row] \<and> nazwa row = f \<and> czas_archiwizacji row = Some now
            \<and> czas_pobrania row = seen_in_b s f \<and> czas_wrzucenia row = ta
            \<and> czas_cyklu_ab row = map_option (\<lambda>t. format_timedelta (now - t)) (last_b_time s))"
  by (auto simp: record_archive_def insert_row_def Let_def split: option.splits if_splits)

text \<open>The calls of each operation.\<close>

lemma copy2_calls: "makes_calls (copy2 cf a b) [Copy2 a b]"
  unfolding makes_calls_def
  by (auto simp: copy2_def logc_def Let_def final_def raised_def intro: exI[of _ 1]
      split: option.splits copy_fault.splits)

lemma check_exists_calls: "makes_calls (check_exists gone msg p) [Exists p]"
  unfolding makes_calls_def
  by (auto simp: check_exists_def vanish_def logc_def Let_def final_def raised_def intro: exI[of _ 1])

lemma check_size_calls: "makes_calls (check_size a b) [Getsize a, Getsize b]"
  unfolding makes_calls_def
proof (intro allI conjI impI)
  fix s
  show "\<exists>k. calls (final (check_size a b s)) = calls s @ take k [Getsize a, Getsize b]"
  proof (cases "files s a")
    case None
    then have "calls (final (check_size a b s)) = calls s @ take 1 [Getsize a, Getsize b]"
      by (simp add: check_size_def logc_def Let_def)
    then show ?thesis by blast
  next
    case (Some x)
    then have "calls (final (check_size a b s)) = calls s @ take 2 [Getsize a, Getsize b]"
      by (simp add: check_size_def logc_def Let_def split: option.splits)
    then show ?thesis by blast
  qed
next
  fix s
  assume "raised (check_size a b s) = None"
  then show "calls (final (check_size a b s)) = calls s @ [Getsize a, Getsize b]"
    by (auto simp: check_size_def logc_def Let_def raised_def split: option.splits if_splits)
qed

lemma os_replace_calls: "makes_calls (os_replace r a b) [Replace a b]"
  unfolding makes_calls_def
  by (auto simp: os_replace_def logc_def Let_def final_def raised_def intro: exI[of _ 1]
      split: option.splits)

lemma archive_try_eq:
  "archive_try cfg flt f now pa ta s =
     (case run_steps (verified_copy cfg flt f pa) s of
        Inl x \<Rightarrow> Inl x
      | Inr t \<Rightarrow>
          (case os_remove (remove_raises flt) pa t of
             Inl x \<Rightarrow> Inl x
           | Inr u \<Rightarrow> record_archive cfg (insert_raises flt) f now pa ta u))"
  by (simp add: archive_try_def verified_copy_def Let_def split: sum.splits)

lemma verified_copy_tracked:
  "tracked (final (run_steps (verified_copy cfg flt f pa) s)) = tracked s"
  by (rule run_steps_keeps)
     (auto simp: verified_copy_def copy2_tracked check_exists_tracked check_size_tracked
        os_replace_tracked)


lemma verified_copy_files:
  assumes "p \<noteq> path_join (folder_c cfg) f" and "p \<noteq> path_join (folder_c cfg) f @ ''.tmp''"
  shows "files (final (run_steps (verified_copy cfg flt f pa) s)) p = files s p"
  by (rule run_steps_keeps[where g = "\<lambda>s. files s p"])
     (use assms in \<open>auto simp: verified_copy_def copy2_files check_exists_files check_size_files
        os_replace_files\<close>)

lemma verified_copy_calls:
  "list_all2 makes_calls (verified_copy cfg flt f pa)
     [[Copy2 pa (path_join (folder_c cfg) f @ ''.tmp'')],
      [Exists (path_join (folder_c cfg) f @ ''.tmp'')],
      [Getsize (path_join (folder_c cfg) f @ ''.tmp''), Getsize pa],
      [Replace (path_join (folder_c cfg) f @ ''.tmp'') (path_join (folder_c cfg) f)],
      [Exists (path_join (folder_c cfg) f)]]"
  by (simp add: verified_copy_def copy2_calls check_exists_calls check_size_calls os_replace_calls)

lemma verified_copy_Inr:
  assumes ok: "run_steps (verified_copy cfg flt f pa) s = Inr t"
      and ne: "pa \<noteq> path_join (folder_c cfg) f @ ''.tmp''"
  shows "\<exists>src arch. files s pa = Some src \<and> files t (path_join (folder_c cfg) f) = Some arch
           \<and> length arch = length src \<and> files t (path_join (folder_c cfg) f @ ''.tmp'') = None"
proof -
  let ?c = "path_join (folder_c cfg) f"
  let ?tmp = "?c @ ''.tmp''"
  from ok obtain s1 s2 s3 s4 where
    1: "copy2 (copy_fault flt) pa ?tmp s = Inr s1" and
    2: "check_exists (temp_vanishes flt) ''Plik tymczasowy nie zostal utworzony'' ?tmp s1 = Inr s2" and
    3: "check_size ?tmp pa s2 = Inr s3" and
    4: "os_replace (replace_raises flt) ?tmp ?c s3 = Inr s4" and
    5: "check_exists (final_vanishes flt) ''Plik docelowy nie istnieje po rename'' ?c s4 = Inr t"
    by (auto simp: verified_copy_def split: sum.splits)
  have a: "files s1 pa = files s pa"
    using copy2_files[OF ne, of "copy_fault flt" pa s] 1 by simp
  have b: "files s3 = files s1"
    using check_exists_Inr[OF 2] check_size_Inr[OF 3] by simp
  from check_size_Inr[OF 3] obtain x y where
    xy: "files s2 ?tmp = Some x" "files s2 pa = Some y" "length x = length y"
    by blast
  have c: "files s2 = files s1" using check_exists_Inr[OF 2] by simp
  have d: "files t = ((files s3)(?tmp := None))(?c := files s3 ?tmp)"
    using os_replace_Inr[OF 4] check_exists_Inr[OF 5] by simp
  have "?tmp \<noteq> ?c" by simp
  then show ?thesis
    using a b c d xy by auto
qed



text \<open>The handler.\<close>

lemma cleanup_tracked: "tracked (cleanup r tmp s) = tracked s"
  using os_remove_tracked[of r tmp "logc (Exists tmp) s"]
  by (auto simp: cleanup_def Let_def logc_def tracked_def final_def split: sum.splits prod.splits)

lemma cleanup_files: "p \<noteq> tmp \<Longrightarrow> files (cleanup r tmp s) p = files s p"
  using os_remove_files[of p tmp r "logc (Exists tmp) s"]
  by (auto simp: cleanup_def Let_def logc_def final_def split: sum.splits prod.splits)

lemma cleanup_tmp: "\<not> r \<Longrightarrow> files (cleanup r tmp s) tmp = None"
  by (auto simp: cleanup_def os_remove_def Let_def logc_def split: option.splits)

lemma cleanup_calls:
  "\<exists>new. calls (cleanup r tmp s) = calls s @ new \<and> set new \<subseteq> {Exists tmp, Remove tmp}"
  by (auto simp: cleanup_def os_remove_def Let_def logc_def split: option.splits)

text \<open>The body of the try as a whole.\<close>

lemma archive_try_raised:
  assumes "raised (archive_try cfg flt f now pa ta s) = Some e"
  shows "tracked (final (archive_try cfg flt f now pa ta s)) = tracked s"
proof (cases "run_steps (verified_copy cfg flt f pa) s")
  case (Inl x)
  then show ?thesis
    using verified_copy_tracked[of cfg flt f pa s] by (simp add: archive_try_eq)
next
  case (Inr t)
  then have t: "tracked t = tracked s"
    using verified_copy_tracked[of cfg flt f pa s] by simp
  show ?thesis
  proof (cases "os_remove (remove_raises flt) pa t")
    case (Inl x)
    then show ?thesis
      using os_remove_tracked[of "remove_raises flt" pa t] t Inr by (simp add: archive_try_eq)
  next
    case u: (Inr u)
    then have u': "tracked u = tracked t"
      using os_remove_tracked[of "remove_raises flt" pa t] by simp
    obtain e' v where "record_archive cfg (insert_raises flt) f now pa ta u = Inl (e', v)"
      using assms Inr u by (cases "record_archive cfg (insert_raises flt) f now pa ta u")
        (auto simp: archive_try_eq)
    then show ?thesis
      using record_archive_Inl[of cfg "insert_raises flt" f now pa ta u e' v] t u' Inr u
      by (simp add: archive_try_eq)
  qed
qed

lemma archive_try_returned:
  assumes "archive_try cfg flt f now pa ta s = Inr s'"
  shows "\<exists>t u. run_steps (verified_copy cfg flt f pa) s = Inr t
           \<and> os_remove (remove_raises flt) pa t = Inr u
           \<and> record_archive cfg (insert_raises flt) f now pa ta u = Inr s'"
  using assms by (auto simp: archive_try_eq split: sum.splits)

lemma archive_try_source:
  assumes r: "raised (archive_try cfg flt f now pa ta s) = Some e"
      and e: "e = OSError \<or> (\<exists>m. e = IOError m)"
      and ne: "pa \<noteq> path_join (folder_c cfg) f" "pa \<noteq> path_join (folder_c cfg) f @ ''.tmp''"
  shows "files (final (archive_try cfg flt f now pa ta s)) pa = files s pa"
proof (cases "run_steps (verified_copy cfg flt f pa) s")
  case (Inl x)
  then show ?thesis
    using verified_copy_files[OF ne, of flt pa s] by (simp add: archive_try_eq)
next
  case (Inr t)
  then have t: "files t pa = files s pa"
    using verified_copy_files[OF ne, of flt pa s] by simp
  show ?thesis
  proof (cases "os_remove (remove_raises flt) pa t")
    case (Inl x)
    then show ?thesis
      using os_remove_Inl[of "remove_raises flt" pa t "fst x" "snd x"] t Inr
      by (simp add: archive_try_eq)
  next
    case u: (Inr u)
    obtain e' v where v: "record_archive cfg (insert_raises flt) f now pa ta u = Inl (e', v)"
      using r Inr u by (cases "record_archive cfg (insert_raises flt) f now pa ta u")
        (auto simp: archive_try_eq)
    then have "e' = e" using r Inr u by (simp add: archive_try_eq)
    then show ?thesis
      using record_archive_Inl[OF v] e by auto
  qed
qed

section \<open>Failure of the archival\<close>

lemma archive_file_tracked_file:
  assumes "map_of (waiting s) f = Some (pa, ta)"
  shows "archive_file cfg flt f now s =
     (case archive_try cfg flt f now pa ta s of
        Inr s' \<Rightarrow> Inr s'
      | Inl x \<Rightarrow> Inr (cleanup (cleanup_raises flt) (path_join (folder_c cfg) f @ ''.tmp'')
                        ((snd x)\<lparr>errors := errors (snd x) + 1\<rparr>)))"
  using assms by (simp add: archive_file_def split: sum.splits prod.splits)

text \<open>
  Claim C1, as amended. When the archival of a tracked file fails, the call still returns,
  the error counter goes up by one, and \<^verbatim>\<open>waiting\<close>, \<^verbatim>\<open>seen_in_b\<close>, the success counter
  and the store are unchanged; the temporary file is gone unless its removal itself raised,
  which the handler ignores. When the failure is one of the file operations or checks (the
  copy, the two checks of the copy, the rename, its check, the removal of the source), the
  file at the intake path is what it was, provided the intake path is neither the archive
  path nor its temporary path.
\<close>

theorem archive_failure_state:
  assumes "map_of (waiting s) filename = Some (path_a, time_added)"
      and "raised (archive_try cfg flt filename now path_a time_added s) = Some e"
      and "s' = final (archive_file cfg flt filename now s)"
      and "temp_path = path_join (folder_c cfg) filename @ ''.tmp''"
  shows "raised (archive_file cfg flt filename now s) = None
       \<and> errors s' = errors s + 1 \<and> processed s' = processed s
       \<and> waiting s' = waiting s \<and> seen_in_b s' = seen_in_b s \<and> db s' = db s
       \<and> (cleanup_raises flt \<or> files s' temp_path = None)
       \<and> ((e = OSError \<or> (\<exists>m. e = IOError m))
            \<and> path_a \<noteq> path_join (folder_c cfg) filename \<and> path_a \<noteq> temp_path
          \<longrightarrow> files s' path_a = files s path_a)"
proof -
  let ?r = "archive_try cfg flt filename now path_a time_added s"
  obtain x where x: "?r = Inl x"
    using assms(2) by (cases ?r) simp_all
  let ?s1 = "(snd x)\<lparr>errors := errors (snd x) + 1\<rparr>"
  have af: "archive_file cfg flt filename now s = Inr (cleanup (cleanup_raises flt) temp_path ?s1)"
    using archive_file_tracked_file[OF assms(1), of cfg flt now] x assms(4) by simp
  then have s': "s' = cleanup (cleanup_raises flt) temp_path ?s1"
    using assms(3) by simp
  have t1: "tracked (snd x) = tracked s"
    using archive_try_raised[OF assms(2)] x by simp
  have "tracked s' = tracked ?s1"
    unfolding s' by (rule cleanup_tracked)
  then have fields: "errors s' = errors s + 1 \<and> processed s' = processed s
       \<and> waiting s' = waiting s \<and> seen_in_b s' = seen_in_b s \<and> db s' = db s"
    using t1 by (simp add: tracked_def)
  have tmp: "cleanup_raises flt \<or> files s' temp_path = None"
  proof (cases "cleanup_raises flt")
    case True
    then show ?thesis by simp
  next
    case False
    show ?thesis unfolding s' using cleanup_tmp[OF False] by simp
  qed
  have src: "files s' path_a = files s path_a"
    if "e = OSError \<or> (\<exists>m. e = IOError m)"
      and "path_a \<noteq> path_join (folder_c cfg) filename" and "path_a \<noteq> temp_path"
  proof -
    have "files (snd x) path_a = files s path_a"
      using archive_try_source[OF assms(2) that(1) that(2)] that(3) assms(4) x by simp
    moreover have "files s' path_a = files ?s1 path_a"
      unfolding s' using that(3) by (rule cleanup_files)
    ultimately show ?thesis by simp
  qed
  show ?thesis
    using af fields tmp src by simp
qed


text \<open>An archival whose rename raises.\<close>

theorem archive_failure_state_witness:
  "raised (archive_file shop (no_faults\<lparr>replace_raises := True\<rparr>) ''job2.iso'' 920000000 shop_state) = None
   \<and> errors (final (archive_file shop (no_faults\<lparr>replace_raises := True\<rparr>) ''job2.iso'' 920000000 shop_state)) = 1
   \<and> waiting (final (archive_file shop (no_faults\<lparr>replace_raises := True\<rparr>) ''job2.iso'' 920000000 shop_state))
       = [(''job2.iso'', ''A/job2.iso'', 400000000)]
   \<and> files (final (archive_file shop (no_faults\<lparr>replace_raises := True\<rparr>) ''job2.iso'' 920000000 shop_state))
       ''C/job2.iso.tmp'' = None
   \<and> files (final (archive_file shop (no_faults\<lparr>replace_raises := True\<rparr>) ''job2.iso'' 920000000 shop_state))
       ''A/job2.iso'' = Some ''G1 X10''"
proof -
  let ?flt = "no_faults\<lparr>replace_raises := True\<rparr>"
  have a: "map_of (waiting shop_state) ''job2.iso'' = Some (''A/job2.iso'', 400000000)"
    by (simp add: shop_state_def)
  have b: "raised (archive_try shop ?flt ''job2.iso'' 920000000 ''A/job2.iso'' 400000000 shop_state)
      = Some OSError"
    by code_simp
  have c: "path_join (folder_c shop) ''job2.iso'' = ''C/job2.iso''"
    by code_simp
  have d: "\<not> cleanup_raises ?flt"
    by (simp add: no_faults_def)
  have e: "errors shop_state = 0" "waiting shop_state = [(''job2.iso'', ''A/job2.iso'', 400000000)]"
    "files shop_state ''A/job2.iso'' = Some ''G1 X10''"
    by (simp_all add: shop_state_def init_state_def shop_files_def)
  show ?thesis
    using archive_failure_state[OF a b refl refl] c d e by simp
qed

text \<open>
  Claim C1 as stated fails: when \<^verbatim>\<open>Database.insert\<close> raises, the source has already been
  removed, and the file stays in \<^verbatim>\<open>waiting\<close>; and when the removal of a partial temporary
  file raises, that file stays.
\<close>

theorem archive_failure_source_counterexample:
  "raised (archive_try shop (no_faults\<lparr>insert_raises := True\<rparr>) ''job2.iso'' 920000000
      ''A/job2.iso'' 400000000 shop_state) = Some DatabaseError
   \<and> files shop_state ''A/job2.iso'' = Some ''G1 X10''
   \<and> files (final (archive_file shop (no_faults\<lparr>insert_raises := True\<rparr>) ''job2.iso'' 920000000
        shop_state)) ''A/job2.iso'' = None
   \<and> map_of (waiting (final (archive_file shop (no_faults\<lparr>insert_raises := True\<rparr>) ''job2.iso''
        920000000 shop_state))) ''job2.iso'' \<noteq> None
   \<and> files (final (archive_file shop
        (no_faults\<lparr>copy_fault := CopyRaises (Some ''G1''), cleanup_raises := True\<rparr>) ''job2.iso''
        920000000 shop_state)) ''C/job2.iso.tmp'' = Some ''G1''"
  by code_simp

section \<open>Order of the archival and cycle time\<close>


lemma os_remove_calls_eq: "calls (final (os_remove r p s)) = calls s @ [Remove p]"
  by (simp add: os_remove_def logc_def Let_def split: option.splits)

lemma verified_copy_calls_any:
  "\<exists>k\<le>6. calls (final (run_steps (verified_copy cfg flt f pa) s))
      = calls s @ take k (archive_calls pa (path_join (folder_c cfg) f))"
proof -
  from run_steps_calls[OF verified_copy_calls, of cfg flt f pa s]
  obtain k where "calls (final (run_steps (verified_copy cfg flt f pa) s))
      = calls s @ take k (take 6 (archive_calls pa (path_join (folder_c cfg) f)))"
    by (auto simp: archive_calls_def)
  then have "calls (final (run_steps (verified_copy cfg flt f pa) s))
      = calls s @ take (min k 6) (archive_calls pa (path_join (folder_c cfg) f))"
    by (simp add: min.commute)
  then show ?thesis
    by (intro exI[of _ "min k 6"]) simp
qed

lemma verified_copy_calls_Inr:
  assumes "run_steps (verified_copy cfg flt f pa) s = Inr t"
  shows "calls t = calls s @ take 6 (archive_calls pa (path_join (folder_c cfg) f))"
  using run_steps_calls[OF verified_copy_calls, of cfg flt f pa s] assms
  by (simp add: archive_calls_def)


lemma take7_archive_calls: "take 7 (archive_calls a c) = archive_calls a c"
  by (simp add: archive_calls_def)

lemma take6_archive_calls: "take 6 (archive_calls a c) @ [Remove a] = archive_calls a c"
  by (simp add: archive_calls_def)

text \<open>
  Claim C6. A successful archival makes exactly the calls \<open>archive_calls\<close>, in that order: the
  copy to the temporary path, the check that it exists, the two sizes, the rename, the check
  of the final path and the removal of the source. Whatever happens, the calls made are the
  first \<open>n\<close> of these, followed only by the handler's work on the temporary file; as long
  as not all seven were made the source is what it was, and once the seventh (the removal)
  is made, the archive path holds a file of the size of the source.
\<close>

theorem archive_order:
  assumes tr: "map_of (waiting s) filename = Some (path_a, time_added)"
      and s': "s' = final (archive_file cfg flt filename now s)"
      and pc: "path_c = path_join (folder_c cfg) filename"
  shows "(raised (archive_try cfg flt filename now path_a time_added s) = None
            \<longrightarrow> calls s' = calls s @ archive_calls path_a path_c)
       \<and> (\<exists>n new. calls s' = calls s @ take n (archive_calls path_a path_c) @ new
            \<and> set new \<subseteq> {Exists (path_c @ ''.tmp''), Remove (path_c @ ''.tmp'')}
            \<and> n \<le> 7
            \<and> (n < 7 \<and> path_a \<noteq> path_c \<and> path_a \<noteq> path_c @ ''.tmp''
                 \<longrightarrow> files s' path_a = files s path_a)
            \<and> (n = 7 \<and> path_a \<noteq> path_c \<and> path_a \<noteq> path_c @ ''.tmp''
                 \<longrightarrow> (\<exists>src arch. files s path_a = Some src \<and> files s' path_c = Some arch
                        \<and> length arch = length src)))"
proof -
  let ?tmp = "path_c @ ''.tmp''"
  let ?seq = "archive_calls path_a path_c"
  let ?body = "archive_try cfg flt filename now path_a time_added s"
  let ?handled = "\<lambda>x. cleanup (cleanup_raises flt) ?tmp ((snd x)\<lparr>errors := errors (snd x) + 1\<rparr>)"
  note af = archive_file_tracked_file[OF tr, of cfg flt now, folded pc]
  have handled: "\<exists>new. calls (?handled x) = calls (snd x) @ new
      \<and> set new \<subseteq> {Exists ?tmp, Remove ?tmp}
      \<and> files (?handled x) path_c = files (snd x) path_c
      \<and> (path_a \<noteq> ?tmp \<longrightarrow> files (?handled x) path_a = files (snd x) path_a)" for x
    using cleanup_calls[of "cleanup_raises flt" ?tmp "(snd x)\<lparr>errors := errors (snd x) + 1\<rparr>"]
      cleanup_files[of path_c ?tmp "cleanup_raises flt" "(snd x)\<lparr>errors := errors (snd x) + 1\<rparr>"]
      cleanup_files[of path_a ?tmp "cleanup_raises flt" "(snd x)\<lparr>errors := errors (snd x) + 1\<rparr>"]
    by auto
  show ?thesis
  proof (cases "run_steps (verified_copy cfg flt filename path_a) s")
    case (Inl x)
    then have body: "?body = Inl x" by (simp add: archive_try_eq)
    then have fin: "s' = ?handled x" using af s' by simp
    from verified_copy_calls_any[of cfg flt filename path_a s, folded pc] Inl
    obtain k where k: "k \<le> 6" "calls (snd x) = calls s @ take k ?seq"
      by auto
    from handled[of x] obtain new where new: "calls (?handled x) = calls (snd x) @ new"
      "set new \<subseteq> {Exists ?tmp, Remove ?tmp}"
      "path_a \<noteq> ?tmp \<longrightarrow> files (?handled x) path_a = files (snd x) path_a"
      by blast
    have src: "path_a \<noteq> path_c \<and> path_a \<noteq> ?tmp \<longrightarrow> files (snd x) path_a = files s path_a"
      using verified_copy_files[of path_a cfg filename flt path_a s] Inl pc by auto
    have "calls s' = calls s @ take k ?seq @ new \<and> set new \<subseteq> {Exists ?tmp, Remove ?tmp}
        \<and> k \<le> 7 \<and> (k < 7 \<and> path_a \<noteq> path_c \<and> path_a \<noteq> ?tmp \<longrightarrow> files s' path_a = files s path_a)
        \<and> (k = 7 \<and> path_a \<noteq> path_c \<and> path_a \<noteq> ?tmp
             \<longrightarrow> (\<exists>src arch. files s path_a = Some src \<and> files s' path_c = Some arch
                    \<and> length arch = length src))"
      using k new src fin by auto
    then have "\<exists>n new. calls s' = calls s @ take n ?seq @ new \<and> set new \<subseteq> {Exists ?tmp, Remove ?tmp}
        \<and> n \<le> 7 \<and> (n < 7 \<and> path_a \<noteq> path_c \<and> path_a \<noteq> ?tmp \<longrightarrow> files s' path_a = files s path_a)
        \<and> (n = 7 \<and> path_a \<noteq> path_c \<and> path_a \<noteq> ?tmp
             \<longrightarrow> (\<exists>src arch. files s path_a = Some src \<and> files s' path_c = Some arch
                    \<and> length arch = length src))"
      by blast
    moreover have "raised ?body \<noteq> None" using body by simp
    ultimately show ?thesis by blast
  next
    case (Inr t)
    have ct: "calls t = calls s @ take 6 ?seq"
      using verified_copy_calls_Inr[OF Inr] pc by simp
    have ver: "path_a \<noteq> ?tmp \<longrightarrow> (\<exists>src arch. files s path_a = Some src
        \<and> files t path_c = Some arch \<and> length arch = length src)"
      using verified_copy_Inr[OF Inr] pc by auto
    let ?rm = "os_remove (remove_raises flt) path_a t"
    have crm: "calls (final ?rm) = calls s @ ?seq"
      using os_remove_calls_eq[of "remove_raises flt" path_a t] ct take6_archive_calls[of path_a path_c]
      by simp
    have frm: "path_a \<noteq> path_c \<longrightarrow> files (final ?rm) path_c = files t path_c"
      using os_remove_files[of path_c path_a "remove_raises flt" t] by auto
    have all7: "\<exists>n new. calls s' = calls s @ take n ?seq @ new \<and> set new \<subseteq> {Exists ?tmp, Remove ?tmp}
        \<and> n \<le> 7 \<and> (n < 7 \<and> path_a \<noteq> path_c \<and> path_a \<noteq> ?tmp \<longrightarrow> files s' path_a = files s path_a)
        \<and> (n = 7 \<and> path_a \<noteq> path_c \<and> path_a \<noteq> ?tmp
             \<longrightarrow> (\<exists>src arch. files s path_a = Some src \<and> files s' path_c = Some arch
                    \<and> length arch = length src))"
      if "calls s' = calls s @ ?seq @ new" "set new \<subseteq> {Exists ?tmp, Remove ?tmp}"
        "files s' path_c = files (final ?rm) path_c" for new
      by (rule exI[of _ 7], rule exI[of _ new])
         (use that ver frm in \<open>simp add: take7_archive_calls\<close>)
    show ?thesis
    proof (cases ?rm)
      case (Inl x)
      then have body: "?body = Inl x" using Inr by (simp add: archive_try_eq)
      then have fin: "s' = ?handled x" using af s' by simp
      from handled[of x] obtain new where new: "calls (?handled x) = calls (snd x) @ new"
        "set new \<subseteq> {Exists ?tmp, Remove ?tmp}"
        "files (?handled x) path_c = files (snd x) path_c"
        by blast
      have "calls s' = calls s @ ?seq @ new" "files s' path_c = files (final ?rm) path_c"
        using new crm fin Inl by simp_all
      from all7[OF this(1) new(2) this(2)] have "\<exists>n new. calls s' = calls s @ take n ?seq @ new
        \<and> set new \<subseteq> {Exists ?tmp, Remove ?tmp}
        \<and> n \<le> 7 \<and> (n < 7 \<and> path_a \<noteq> path_c \<and> path_a \<noteq> ?tmp \<longrightarrow> files s' path_a = files s path_a)
        \<and> (n = 7 \<and> path_a \<noteq> path_c \<and> path_a \<noteq> ?tmp
             \<longrightarrow> (\<exists>src arch. files s path_a = Some src \<and> files s' path_c = Some arch
                    \<and> length arch = length src))" .
      moreover have "raised ?body \<noteq> None" using body by simp
      ultimately show ?thesis by blast
    next
      case u: (Inr u)
      let ?rec = "record_archive cfg (insert_raises flt) filename now path_a time_added u"
      have body: "?body = ?rec" using Inr u by (simp add: archive_try_eq)
      have cu: "calls u = calls s @ ?seq" and fu: "files u path_c = files (final ?rm) path_c"
        using crm u by simp_all
      show ?thesis
      proof (cases ?rec)
        case (Inl x)
        then have fin: "s' = ?handled x" using af s' body by simp
        have x: "calls (snd x) = calls u" "files (snd x) = files u"
          using record_archive_Inl[of cfg "insert_raises flt" filename now path_a time_added u "fst x" "snd x"]
            Inl by simp_all
        from handled[of x] obtain new where new: "calls (?handled x) = calls (snd x) @ new"
          "set new \<subseteq> {Exists ?tmp, Remove ?tmp}"
          "files (?handled x) path_c = files (snd x) path_c"
          by blast
        have "calls s' = calls s @ ?seq @ new" "files s' path_c = files (final ?rm) path_c"
          using new x cu fu fin by simp_all
        from all7[OF this(1) new(2) this(2)] have "\<exists>n new. calls s' = calls s @ take n ?seq @ new
          \<and> set new \<subseteq> {Exists ?tmp, Remove ?tmp}
          \<and> n \<le> 7 \<and> (n < 7 \<and> path_a \<noteq> path_c \<and> path_a \<noteq> ?tmp \<longrightarrow> files s' path_a = files s path_a)
          \<and> (n = 7 \<and> path_a \<noteq> path_c \<and> path_a \<noteq> ?tmp
               \<longrightarrow> (\<exists>src arch. files s path_a = Some src \<and> files s' path_c = Some arch
                      \<and> length arch = length src))" .
        moreover have "raised ?body \<noteq> None" using body Inl by simp
        ultimately show ?thesis by blast
      next
        case v: (Inr v)
        then have fin: "s' = v" using af s' body by simp
        have v': "calls v = calls u" "files v = files u"
          using record_archive_Inr[OF v] by simp_all
        have a: "calls s' = calls s @ ?seq @ []" and b: "files s' path_c = files (final ?rm) path_c"
          using v' cu fu fin by simp_all
        have "set [] \<subseteq> {Exists ?tmp, Remove ?tmp}" by simp
        from all7[OF a this b] have "\<exists>n new. calls s' = calls s @ take n ?seq @ new
          \<and> set new \<subseteq> {Exists ?tmp, Remove ?tmp}
          \<and> n \<le> 7 \<and> (n < 7 \<and> path_a \<noteq> path_c \<and> path_a \<noteq> ?tmp \<longrightarrow> files s' path_a = files s path_a)
          \<and> (n = 7 \<and> path_a \<noteq> path_c \<and> path_a \<noteq> ?tmp
               \<longrightarrow> (\<exists>src arch. files s path_a = Some src \<and> files s' path_c = Some arch
                      \<and> length arch = length src))" .
        moreover have "calls s' = calls s @ ?seq" using a by simp
        ultimately show ?thesis by blast
      qed
    qed
  qed
qed


text \<open>
  The archival of \<^verbatim>\<open>job2.iso\<close> with no fault.
\<close>

theorem archive_order_witness:
  "calls (final (archive_file shop no_faults ''job2.iso'' 920000000 shop_state))
     = [ Copy2 ''A/job2.iso'' ''C/job2.iso.tmp'', Exists ''C/job2.iso.tmp'',
         Getsize ''C/job2.iso.tmp'', Getsize ''A/job2.iso'',
         Replace ''C/job2.iso.tmp'' ''C/job2.iso'', Exists ''C/job2.iso'', Remove ''A/job2.iso'' ]
   \<and> files (final (archive_file shop no_faults ''job2.iso'' 920000000 shop_state)) ''A/job2.iso'' = None
   \<and> files (final (archive_file shop no_faults ''job2.iso'' 920000000 shop_state)) ''C/job2.iso''
       = Some ''G1 X10''"
proof -
  have a: "map_of (waiting shop_state) ''job2.iso'' = Some (''A/job2.iso'', 400000000)"
    by (simp add: shop_state_def)
  have b: "raised (archive_try shop no_faults ''job2.iso'' 920000000 ''A/job2.iso'' 400000000 shop_state)
      = None"
    by code_simp
  have c: "path_join (folder_c shop) ''job2.iso'' = ''C/job2.iso''"
    by code_simp
  have d: "calls shop_state = []"
    by (simp add: shop_state_def init_state_def)
  have e: "files (final (archive_file shop no_faults ''job2.iso'' 920000000 shop_state)) ''A/job2.iso'' = None"
    "files (final (archive_file shop no_faults ''job2.iso'' 920000000 shop_state)) ''C/job2.iso''
       = Some ''G1 X10''"
    by code_simp+
  from archive_order[OF a refl c[symmetric], of no_faults 920000000]
  have "calls (final (archive_file shop no_faults ''job2.iso'' 920000000 shop_state))
      = calls shop_state @ archive_calls ''A/job2.iso'' ''C/job2.iso''"
    using b by blast
  then show ?thesis
    using d e by (simp add: archive_calls_def)
qed



lemma archive_file_not_idle: "archive_file cfg flt f now s \<noteq> Inr s"
proof (cases "map_of (waiting s) f")
  case None
  then show ?thesis by (simp add: archive_file_def)
next
  case (Some p)
  obtain pa ta where p: "p = (pa, ta)" by (cases p)
  note af = archive_file_tracked_file[OF Some[unfolded p], of cfg flt now]
  show ?thesis
  proof (cases "archive_try cfg flt f now pa ta s")
    case (Inl x)
    let ?s1 = "(snd x)\<lparr>errors := errors (snd x) + 1\<rparr>"
    have "tracked (snd x) = tracked s"
      using archive_try_raised[of cfg flt f now pa ta s "fst x"] Inl by simp
    moreover have "tracked (cleanup (cleanup_raises flt) (path_join (folder_c cfg) f @ ''.tmp'') ?s1)
        = tracked ?s1"
      by (rule cleanup_tracked)
    ultimately have "errors (final (archive_file cfg flt f now s)) = errors s + 1"
      using af Inl by (simp add: tracked_def)
    then show ?thesis by auto
  next
    case (Inr v)
    from archive_try_returned[OF Inr] obtain t u where
      t: "run_steps (verified_copy cfg flt f pa) s = Inr t" and
      u: "os_remove (remove_raises flt) pa t = Inr u" and
      r: "record_archive cfg (insert_raises flt) f now pa ta u = Inr v"
      by blast
    have "tracked u = tracked s"
      using verified_copy_tracked[of cfg flt f pa s] t
        os_remove_tracked[of "remove_raises flt" pa t] u by simp
    then have "processed v = processed s + 1"
      using record_archive_Inr[OF r] by (simp add: tracked_def)
    then show ?thesis using af Inr by auto
  qed
qed



section \<open>Keys of the two maps\<close>

lemma keys_ok_update:
  assumes "keys_ok s"
  shows "keys_ok (s\<lparr>waiting := AList.update k v (waiting s)\<rparr>)"
  using assms by (auto simp: keys_ok_def AList.distinct_update AList.dom_update)

lemma keys_ok_delete:
  assumes "keys_ok s"
  shows "keys_ok (s\<lparr>waiting := AList.delete k (waiting s), seen_in_b := (seen_in_b s)(k := None)\<rparr>)"
proof -
  have "fst ` set (AList.delete k (waiting s)) = fst ` set (waiting s) - {k}"
    using AList.delete_keys[of k "waiting s"] by (metis list.set_map set_removeAll)
  then show ?thesis
    using assms by (auto simp: keys_ok_def AList.distinct_delete)
qed

lemma keys_ok_cong:
  "waiting t = waiting s \<Longrightarrow> seen_in_b t = seen_in_b s \<Longrightarrow> keys_ok t = keys_ok s"
  by (simp add: keys_ok_def)

lemma a_file_keys_ok: "keys_ok s \<Longrightarrow> keys_ok (a_file cfg pr f s)"
  by (auto simp: a_file_def Let_def keys_ok_update split: option.splits)

lemma a_scan_keys_ok:
  "keys_ok s \<Longrightarrow> keys_ok (foldl (\<lambda>t filename. a_file cfg pr filename t) s names)"
  by (induction names arbitrary: s) (simp_all add: a_file_keys_ok)

lemma process_folder_a_keys_ok: "keys_ok s \<Longrightarrow> keys_ok (final (process_folder_a cfg e s))"
  by (auto simp: process_folder_a_def a_scan_keys_ok split: sum.splits)

text \<open>An archival either leaves both maps as they are or removes the file from both.\<close>

lemma archive_file_maps:
  "(waiting (final (archive_file cfg flt f now s)) = waiting s
      \<and> seen_in_b (final (archive_file cfg flt f now s)) = seen_in_b s)
   \<or> (waiting (final (archive_file cfg flt f now s)) = AList.delete f (waiting s)
      \<and> seen_in_b (final (archive_file cfg flt f now s)) = (seen_in_b s)(f := None))"
proof (cases "map_of (waiting s) f")
  case None
  then show ?thesis by (simp add: archive_file_def)
next
  case (Some p)
  obtain pa ta where p: "p = (pa, ta)" by (cases p)
  note af = archive_file_tracked_file[OF Some[unfolded p], of cfg flt now]
  show ?thesis
  proof (cases "archive_try cfg flt f now pa ta s")
    case (Inl x)
    let ?s1 = "(snd x)\<lparr>errors := errors (snd x) + 1\<rparr>"
    have "tracked (snd x) = tracked s"
      using archive_try_raised[of cfg flt f now pa ta s "fst x"] Inl by simp
    moreover have "tracked (cleanup (cleanup_raises flt) (path_join (folder_c cfg) f @ ''.tmp'') ?s1)
        = tracked ?s1"
      by (rule cleanup_tracked)
    ultimately show ?thesis
      using af Inl by (simp add: tracked_def)
  next
    case (Inr v)
    from archive_try_returned[OF Inr] obtain t u where
      t: "run_steps (verified_copy cfg flt f pa) s = Inr t" and
      u: "os_remove (remove_raises flt) pa t = Inr u" and
      r: "record_archive cfg (insert_raises flt) f now pa ta u = Inr v"
      by blast
    have "tracked u = tracked s"
      using verified_copy_tracked[of cfg flt f pa s] t
        os_remove_tracked[of "remove_raises flt" pa t] u by simp
    then show ?thesis
      using record_archive_Inr[OF r] af Inr by (simp add: tracked_def)
  qed
qed

lemma archive_file_keys_ok:
  assumes "keys_ok s"
  shows "keys_ok (final (archive_file cfg flt f now s))"
  using archive_file_maps[of cfg flt f now s]
proof
  assume "waiting (final (archive_file cfg flt f now s)) = waiting s
      \<and> seen_in_b (final (archive_file cfg flt f now s)) = seen_in_b s"
  then show ?thesis using assms keys_ok_cong by blast
next
  assume "waiting (final (archive_file cfg flt f now s)) = AList.delete f (waiting s)
      \<and> seen_in_b (final (archive_file cfg flt f now s)) = (seen_in_b s)(f := None)"
  then have "keys_ok (final (archive_file cfg flt f now s))
      = keys_ok (s\<lparr>waiting := AList.delete f (waiting s), seen_in_b := (seen_in_b s)(f := None)\<rparr>)"
    by (intro keys_ok_cong) simp_all
  then show ?thesis using keys_ok_delete[OF assms] by simp
qed

lemma archive_file_others:
  "fst ` set (waiting s) - {f} \<subseteq> fst ` set (waiting (final (archive_file cfg flt f now s)))"
proof -
  have "fst ` set (AList.delete f (waiting s)) = fst ` set (waiting s) - {f}"
    using AList.delete_keys[of f "waiting s"] by (metis list.set_map set_removeAll)
  then have "fst ` set (waiting s) - {f} \<subseteq> fst ` set (AList.delete f (waiting s))"
    by simp
  moreover have "fst ` set (waiting s) - {f} \<subseteq> fst ` set (waiting s)"
    by (rule Diff_subset)
  ultimately show ?thesis
    using archive_file_maps[of cfg flt f now s] by metis
qed

lemma b_file_keys_ok:
  assumes "keys_ok s" and "f \<in> fst ` set (waiting s)"
  shows "keys_ok (final (b_file cfg flt now f s))"
proof -
  have "keys_ok (s\<lparr>seen_in_b := (seen_in_b s)(f \<mapsto> now)\<rparr>)"
    using assms by (auto simp: keys_ok_def)
  then show ?thesis
    using assms(1) archive_file_keys_ok[OF assms(1), of cfg "flt f" f now]
    by (auto simp: b_file_def Let_def split: option.splits)
qed

lemma b_file_others:
  "fst ` set (waiting s) - {f} \<subseteq> fst ` set (waiting (final (b_file cfg flt now f s)))"
proof -
  have "final (b_file cfg flt now f s) = final (archive_file cfg (flt f) f now s)
      \<or> waiting (final (b_file cfg flt now f s)) = waiting s"
    by (auto simp: b_file_def Let_def split: option.splits)
  moreover have "fst ` set (waiting s) - {f} \<subseteq> fst ` set (waiting s)"
    by (rule Diff_subset)
  ultimately show ?thesis
    using archive_file_others[of s f cfg "flt f" now] by metis
qed

lemma b_scan_keys_ok:
  assumes "keys_ok s" and "distinct ks" and "set ks \<subseteq> fst ` set (waiting s)"
  shows "keys_ok (final (run_steps (map (b_file cfg flt now) ks) s))"
  using assms
proof (induction ks arbitrary: s)
  case Nil
  then show ?case by simp
next
  case (Cons k ks)
  have ok: "keys_ok (final (b_file cfg flt now k s))"
    using Cons.prems by (intro b_file_keys_ok) auto
  show ?case
  proof (cases "b_file cfg flt now k s")
    case (Inl x)
    then show ?thesis using ok by simp
  next
    case (Inr t)
    have "set ks \<subseteq> fst ` set (waiting s) - {k}"
      using Cons.prems by auto
    then have "set ks \<subseteq> fst ` set (waiting t)"
      using b_file_others[of s k cfg flt now] Inr by auto
    then have "keys_ok (final (run_steps (map (b_file cfg flt now) ks) t))"
      using Cons.IH[of t] ok Inr Cons.prems(2) by simp
    then show ?thesis using Inr by simp
  qed
qed

lemma process_folder_b_keys_ok: "keys_ok s \<Longrightarrow> keys_ok (final (process_folder_b cfg e s))"
  unfolding process_folder_b_def
  by (rule b_scan_keys_ok) (auto simp: keys_ok_def)

text \<open>The report scan only writes the cache and the store.\<close>

lemma d_file_state:
  "fst (d_file e f acc) = (fst acc)\<lparr>d_cache := d_cache (fst (d_file e f acc))\<rparr>"
  by (simp add: d_file_def Let_def split: option.splits)

lemma d_file_cache:
  "d_cache (fst (d_file e f acc)) g =
     (if g = f \<and> rx_search False TXT_PATTERN f \<noteq> None \<and> mtime_d e f \<noteq> None
      then mtime_d e f else d_cache (fst acc) g)"
  by (auto simp: d_file_def Let_def split: option.splits)

lemma d_file_skip:
  assumes "rx_search False TXT_PATTERN f \<noteq> None \<longrightarrow> mtime_d e f \<noteq> None
             \<longrightarrow> d_cache (fst acc) f = mtime_d e f"
  shows "d_file e f acc = acc"
  using assms by (auto simp: d_file_def Let_def split: option.splits)

lemma scan_d_snoc: "scan_d e (names @ [f]) s = d_file e f (scan_d e names s)"
  by (simp add: scan_d_def)

lemma scan_d_maps:
  "waiting (fst (scan_d e names s)) = waiting s \<and> seen_in_b (fst (scan_d e names s)) = seen_in_b s
   \<and> files (fst (scan_d e names s)) = files s \<and> db (fst (scan_d e names s)) = db s"
proof (induction names rule: rev_induct)
  case Nil
  then show ?case by (simp add: scan_d_def)
next
  case (snoc f names)
  have "fst (d_file e f (scan_d e names s))
      = (fst (scan_d e names s))\<lparr>d_cache := d_cache (fst (d_file e f (scan_d e names s)))\<rparr>"
    by (rule d_file_state)
  then have "waiting (fst (d_file e f (scan_d e names s))) = waiting (fst (scan_d e names s))
      \<and> seen_in_b (fst (d_file e f (scan_d e names s))) = seen_in_b (fst (scan_d e names s))
      \<and> files (fst (d_file e f (scan_d e names s))) = files (fst (scan_d e names s))
      \<and> db (fst (d_file e f (scan_d e names s))) = db (fst (scan_d e names s))"
    by (metis (no_types) state.select_convs state.surjective state.update_convs(4))
  then show ?case using snoc by (simp add: scan_d_snoc)
qed

lemma scan_d_cached:
  assumes "f \<in> set names" and "rx_search False TXT_PATTERN f \<noteq> None" and "mtime_d e f = Some m"
  shows "d_cache (fst (scan_d e names s)) f = Some m"
  using assms(1)
proof (induction names rule: rev_induct)
  case Nil
  then show ?case by simp
next
  case (snoc g names)
  show ?case
  proof (cases "g = f")
    case True
    then show ?thesis using assms(2,3) by (simp add: scan_d_snoc d_file_cache)
  next
    case False
    then have "f \<in> set names" using snoc.prems by simp
    then show ?thesis using snoc.IH False by (simp add: scan_d_snoc d_file_cache)
  qed
qed

lemma scan_d_idle:
  assumes "\<And>f. f \<in> set names \<Longrightarrow> rx_search False TXT_PATTERN f \<noteq> None \<Longrightarrow> mtime_d e f \<noteq> None
             \<Longrightarrow> d_cache s f = mtime_d e f"
  shows "scan_d e names s = (s, [])"
  using assms
proof (induction names rule: rev_induct)
  case Nil
  then show ?case by (simp add: scan_d_def)
next
  case (snoc g names)
  have "scan_d e names s = (s, [])" using snoc by simp
  moreover have "d_file e g (s, []) = (s, [])"
    by (rule d_file_skip) (use snoc.prems in simp)
  ultimately show ?case by (simp add: scan_d_snoc)
qed

lemma apply_update_rest:
  "d_cache (final (apply_update r u s)) = d_cache s \<and> waiting (final (apply_update r u s)) = waiting s
   \<and> seen_in_b (final (apply_update r u s)) = seen_in_b s"
  by (cases u) (simp add: apply_update_def)

lemma batch_rest:
  "d_cache (final (run_steps (map (apply_update r) us) s)) = d_cache s
   \<and> waiting (final (run_steps (map (apply_update r) us) s)) = waiting s
   \<and> seen_in_b (final (run_steps (map (apply_update r) us) s)) = seen_in_b s"
proof -
  have "(\<lambda>s. (d_cache s, waiting s, seen_in_b s)) (final (run_steps (map (apply_update r) us) s))
      = (\<lambda>s. (d_cache s, waiting s, seen_in_b s)) s"
    by (rule run_steps_keeps) (auto simp: apply_update_rest)
  then show ?thesis by simp
qed

lemma process_folder_d_keys_ok: "keys_ok s \<Longrightarrow> keys_ok (final (process_folder_d cfg e s))"
proof (cases "safe_listdir (listdir e) (folder_d cfg)")
  case (Inl x)
  assume "keys_ok s"
  then show ?thesis using Inl by (simp add: process_folder_d_def)
next
  case (Inr names)
  assume ok: "keys_ok s"
  let ?r = "scan_d e names s"
  have "waiting (final (process_folder_d cfg e s)) = waiting s
      \<and> seen_in_b (final (process_folder_d cfg e s)) = seen_in_b s"
    using batch_rest[of "update_raises e" "snd ?r" "fst ?r"] scan_d_maps[of e names s] Inr
    by (simp add: process_folder_d_def Let_def)
  then show ?thesis using ok keys_ok_cong by blast
qed

text \<open>Properties that every step keeps are kept by a sequence of steps.\<close>

lemma run_steps_pres:
  assumes "\<And>f t. f \<in> set fs \<Longrightarrow> P t \<Longrightarrow> P (final (f t))" and "P s"
  shows "P (final (run_steps fs s))"
  using assms
proof (induction fs arbitrary: s)
  case Nil
  then show ?case by simp
next
  case (Cons f fs)
  have a: "P (final (f s))" using Cons.prems by simp
  show ?case
  proof (cases "f s")
    case (Inl x)
    then show ?thesis using a by simp
  next
    case (Inr t)
    then have "P (final (run_steps fs t))" using Cons a by simp
    then show ?thesis using Inr by simp
  qed
qed

lemma tick_eq:
  "tick cfg e s =
     (let r = run_steps [process_folder_a cfg e, process_folder_b cfg e, process_folder_d cfg e] s
      in if raised r = None then final r else (final r)\<lparr>errors := errors (final r) + 1\<rparr>)"
  by (simp add: tick_def Let_def split: sum.splits prod.splits)

lemma tick_keys_ok: "keys_ok s \<Longrightarrow> keys_ok (tick cfg e s)"
proof -
  assume ok: "keys_ok s"
  let ?r = "run_steps [process_folder_a cfg e, process_folder_b cfg e, process_folder_d cfg e] s"
  have "keys_ok (final ?r)"
    by (rule run_steps_pres[where P = keys_ok])
       (use ok in \<open>auto simp: process_folder_a_keys_ok process_folder_b_keys_ok
          process_folder_d_keys_ok\<close>)
  moreover have "keys_ok ((final ?r)\<lparr>errors := errors (final ?r) + 1\<rparr>) = keys_ok (final ?r)"
    by (rule keys_ok_cong) simp_all
  ultimately show ?thesis by (simp add: tick_eq Let_def)
qed

lemma run_keys_ok: "keys_ok s \<Longrightarrow> keys_ok (run cfg es s)"
proof (induction es arbitrary: s)
  case Nil
  then show ?case by simp
next
  case (Cons e es)
  have "keys_ok (s\<lparr>files := outside e (files s)\<rparr>) = keys_ok s"
    by (rule keys_ok_cong) simp_all
  then show ?case using Cons tick_keys_ok by simp
qed

text \<open>
  Claim C10. In every state the engine reaches from its start, each file with a sighting in
  \<^verbatim>\<open>seen_in_b\<close> is a key of \<^verbatim>\<open>waiting\<close>; and each scan, the archival and the whole tick
  keep this (together with the distinctness of the keys), also when they raise.
\<close>

theorem seen_in_b_within_waiting:
  "dom (seen_in_b (run cfg es (init_state fs rows)))
     \<subseteq> fst ` set (waiting (run cfg es (init_state fs rows)))
   \<and> (keys_ok s \<longrightarrow>
        keys_ok (final (process_folder_a cfg e s)) \<and> keys_ok (final (process_folder_b cfg e s))
        \<and> keys_ok (final (process_folder_d cfg e s)) \<and> keys_ok (tick cfg e s)
        \<and> keys_ok (final (archive_file cfg flt filename now s))
        \<and> dom (seen_in_b (tick cfg e s)) \<subseteq> fst ` set (waiting (tick cfg e s)))"
proof -
  have "keys_ok (init_state fs rows)"
    by (simp add: keys_ok_def init_state_def)
  then have "keys_ok (run cfg es (init_state fs rows))"
    by (rule run_keys_ok)
  then have "dom (seen_in_b (run cfg es (init_state fs rows)))
     \<subseteq> fst ` set (waiting (run cfg es (init_state fs rows)))"
    by (simp add: keys_ok_def)
  moreover have "dom (seen_in_b (tick cfg e s)) \<subseteq> fst ` set (waiting (tick cfg e s))" if "keys_ok s"
    using tick_keys_ok[OF that, of cfg e] by (simp add: keys_ok_def)
  ultimately show ?thesis
    by (simp add: process_folder_a_keys_ok process_folder_b_keys_ok process_folder_d_keys_ok
        tick_keys_ok archive_file_keys_ok)
qed

text \<open>
  The tick that archives \<^verbatim>\<open>job2.iso\<close>.
\<close>

theorem seen_in_b_within_waiting_witness:
  "keys_ok shop_state
   \<and> keys_ok (tick shop (quiet\<lparr>now_b := 920000000\<rparr>) shop_state)
   \<and> keys_ok (final (process_folder_b shop (quiet\<lparr>now_b := 920000000\<rparr>) shop_state))
   \<and> dom (seen_in_b (tick shop (quiet\<lparr>now_b := 920000000\<rparr>) shop_state))
       \<subseteq> fst ` set (waiting (tick shop (quiet\<lparr>now_b := 920000000\<rparr>) shop_state))"
proof -
  have a: "keys_ok shop_state"
    by (simp add: keys_ok_def shop_state_def)
  show ?thesis
    using seen_in_b_within_waiting[of shop "[]" Map.empty "[]" shop_state "quiet\<lparr>now_b := 920000000\<rparr>"
        no_faults "''job2.iso''" 0] a
    by simp
qed

section \<open>The scan of the machine stage\<close>

text \<open>The scan of B lets no exception out: the archival catches its own.\<close>

lemma run_steps_append:
  "run_steps (fs @ gs) s = (case run_steps fs s of Inl x \<Rightarrow> Inl x | Inr s' \<Rightarrow> run_steps gs s')"
  by (induction fs arbitrary: s) (auto split: sum.splits)

lemma key_tracked: "f \<in> fst ` set (waiting s) \<Longrightarrow> \<exists>pa ta. map_of (waiting s) f = Some (pa, ta)"
  by (cases "map_of (waiting s) f") (auto simp: map_of_eq_None_iff)

lemma archive_file_returns:
  assumes "f \<in> fst ` set (waiting s)"
  shows "raised (archive_file cfg flt f now s) = None"
proof -
  from key_tracked[OF assms] obtain pa ta where "map_of (waiting s) f = Some (pa, ta)"
    by blast
  then show ?thesis
    by (simp add: archive_file_tracked_file split: sum.splits)
qed

lemma b_file_returns:
  assumes "f \<in> fst ` set (waiting s)"
  shows "raised (b_file cfg flt now f s) = None"
  using archive_file_returns[OF assms, of cfg "flt f" now]
  by (simp add: b_file_def Let_def split: option.splits)

lemma b_scan_returns:
  assumes "distinct ks" and "set ks \<subseteq> fst ` set (waiting s)"
  shows "raised (run_steps (map (b_file cfg flt now) ks) s) = None"
  using assms
proof (induction ks arbitrary: s)
  case Nil
  then show ?case by simp
next
  case (Cons k ks)
  have "raised (b_file cfg flt now k s) = None"
    using Cons.prems by (intro b_file_returns) simp
  then obtain t where t: "b_file cfg flt now k s = Inr t"
    by (cases "b_file cfg flt now k s") simp_all
  have "set ks \<subseteq> fst ` set (waiting s) - {k}"
    using Cons.prems by auto
  then have "set ks \<subseteq> fst ` set (waiting t)"
    using b_file_others[of s k cfg flt now] t by auto
  then have "raised (run_steps (map (b_file cfg flt now) ks) t) = None"
    using Cons.IH[of t] Cons.prems(1) by simp
  then show ?case using t by simp
qed

lemma process_folder_b_returns:
  "keys_ok s \<Longrightarrow> raised (process_folder_b cfg e s) = None"
  unfolding process_folder_b_def
  by (rule b_scan_returns) (auto simp: keys_ok_def)

text \<open>An archival calls the copy of its own file once, and writes its own three paths only.\<close>

lemma path_join_inject: "path_join d f = path_join d g \<Longrightarrow> f = g"
  by (simp add: path_join_def split: if_splits)

text \<open>How often a given copy has been called.\<close>

lemma copy2_calls_eq: "calls (final (copy2 cf a b s)) = calls s @ [Copy2 a b]"
  by (simp add: copy2_def logc_def Let_def split: option.splits copy_fault.splits)

lemma copy2_count:
  "count_list (calls (final (copy2 cf a b s))) (Copy2 x y)
     = count_list (calls s) (Copy2 x y) + (if a = x \<and> b = y then 1 else 0)"
  unfolding copy2_calls_eq by auto

lemma check_exists_count:
  "count_list (calls (final (check_exists gone msg p s))) (Copy2 x y) = count_list (calls s) (Copy2 x y)"
  by (simp add: check_exists_def vanish_def logc_def Let_def)

lemma check_size_count:
  "count_list (calls (final (check_size a b s))) (Copy2 x y) = count_list (calls s) (Copy2 x y)"
  by (simp add: check_size_def logc_def Let_def split: option.splits)

lemma os_replace_count:
  "count_list (calls (final (os_replace r a b s))) (Copy2 x y) = count_list (calls s) (Copy2 x y)"
  by (simp add: os_replace_def logc_def Let_def split: option.splits)

lemma os_remove_count:
  "count_list (calls (final (os_remove r p s))) (Copy2 x y) = count_list (calls s) (Copy2 x y)"
  by (simp add: os_remove_def logc_def Let_def split: option.splits)

lemma record_archive_quiet:
  "count_list (calls (final (record_archive cfg r f now pa ta s))) (Copy2 x y)
     = count_list (calls s) (Copy2 x y)
   \<and> files (final (record_archive cfg r f now pa ta s)) = files s"
  by (simp add: record_archive_def Let_def split: option.splits)

lemma cleanup_count:
  "count_list (calls (cleanup r tmp s)) (Copy2 x y) = count_list (calls s) (Copy2 x y)"
  by (simp add: cleanup_def os_remove_def Let_def logc_def split: option.splits)

lemma archive_try_count:
  "count_list (calls (final (archive_try cfg flt f now pa ta s))) (Copy2 x y)
     = count_list (calls s) (Copy2 x y)
       + (if pa = x \<and> path_join (folder_c cfg) f @ ''.tmp'' = y then 1 else 0)"
proof -
  let ?tmp = "path_join (folder_c cfg) f @ ''.tmp''"
  let ?c = "path_join (folder_c cfg) f"
  let ?rest = "[ check_exists (temp_vanishes flt) ''Plik tymczasowy nie zostal utworzony'' ?tmp,
       check_size ?tmp pa, os_replace (replace_raises flt) ?tmp ?c,
       check_exists (final_vanishes flt) ''Plik docelowy nie istnieje po rename'' ?c,
       os_remove (remove_raises flt) pa,
       record_archive cfg (insert_raises flt) f now pa ta ]"
  have split: "archive_try cfg flt f now pa ta s
      = (case copy2 (copy_fault flt) pa ?tmp s of Inl e \<Rightarrow> Inl e | Inr t \<Rightarrow> run_steps ?rest t)"
    by (simp add: archive_try_def Let_def)
  have rest: "count_list (calls (final (run_steps ?rest t))) (Copy2 x y)
      = count_list (calls t) (Copy2 x y)" for t
    by (rule run_steps_keeps[where g = "\<lambda>s. count_list (calls s) (Copy2 x y)"])
       (auto simp: check_exists_count check_size_count os_replace_count os_remove_count
          record_archive_quiet)
  show ?thesis
  proof (cases "copy2 (copy_fault flt) pa ?tmp s")
    case (Inl e)
    then show ?thesis
      using copy2_count[of "copy_fault flt" pa ?tmp s x y] by (simp add: split)
  next
    case (Inr t)
    then show ?thesis
      using copy2_count[of "copy_fault flt" pa ?tmp s x y] rest[of t] by (simp add: split)
  qed
qed

lemma archive_try_files:
  assumes "p \<noteq> pa" and "p \<noteq> path_join (folder_c cfg) f"
      and "p \<noteq> path_join (folder_c cfg) f @ ''.tmp''"
  shows "files (final (archive_try cfg flt f now pa ta s)) p = files s p"
  unfolding archive_try_def Let_def
  by (rule run_steps_keeps[where g = "\<lambda>s. files s p"])
     (use assms in \<open>auto simp: copy2_files check_exists_files check_size_files os_replace_files
        os_remove_files record_archive_quiet\<close>)

text \<open>An archival of a tracked file calls its copy once and touches three paths only.\<close>

lemma archive_file_local:
  assumes "map_of (waiting s) f = Some (pa, ta)"
  shows "count_list (calls (final (archive_file cfg flt f now s))) (Copy2 x y)
           = count_list (calls s) (Copy2 x y)
             + (if pa = x \<and> path_join (folder_c cfg) f @ ''.tmp'' = y then 1 else 0)"
    and "p \<noteq> pa \<Longrightarrow> p \<noteq> path_join (folder_c cfg) f
           \<Longrightarrow> p \<noteq> path_join (folder_c cfg) f @ ''.tmp''
           \<Longrightarrow> files (final (archive_file cfg flt f now s)) p = files s p"
proof -
  let ?tmp = "path_join (folder_c cfg) f @ ''.tmp''"
  let ?body = "archive_try cfg flt f now pa ta s"
  note af = archive_file_tracked_file[OF assms, of cfg flt now]
  show "count_list (calls (final (archive_file cfg flt f now s))) (Copy2 x y)
           = count_list (calls s) (Copy2 x y) + (if pa = x \<and> ?tmp = y then 1 else 0)"
  proof (cases ?body)
    case (Inl e)
    have "count_list (calls (cleanup (cleanup_raises flt) ?tmp ((snd e)\<lparr>errors := errors (snd e) + 1\<rparr>)))
        (Copy2 x y) = count_list (calls (snd e)) (Copy2 x y)"
      by (simp add: cleanup_count)
    then show ?thesis
      using af Inl archive_try_count[of cfg flt f now pa ta s x y] by simp
  next
    case (Inr v)
    then show ?thesis
      using af archive_try_count[of cfg flt f now pa ta s x y] by simp
  qed
  show "files (final (archive_file cfg flt f now s)) p = files s p"
    if "p \<noteq> pa" "p \<noteq> path_join (folder_c cfg) f" "p \<noteq> ?tmp"
  proof (cases ?body)
    case (Inl e)
    have "files (cleanup (cleanup_raises flt) ?tmp ((snd e)\<lparr>errors := errors (snd e) + 1\<rparr>)) p
        = files (snd e) p"
      using cleanup_files[OF that(3)] by simp
    then show ?thesis
      using af Inl archive_try_files[OF that, of flt now ta s] by simp
  next
    case (Inr v)
    then show ?thesis
      using af archive_try_files[OF that, of flt now ta s] by simp
  qed
qed

text \<open>The step of the scan for one file leaves the other files alone.\<close>

lemma archive_file_waiting_subset:
  "set (waiting (final (archive_file cfg flt g now t))) \<subseteq> set (waiting t)"
proof -
  have "set (AList.delete g (waiting t)) \<subseteq> set (waiting t)"
    by (auto simp: AList.delete_eq)
  then show ?thesis
    using archive_file_maps[of cfg flt g now t] by auto
qed

text \<open>What the archival of one file leaves alone of another.\<close>

lemma archive_file_other:
  assumes "g \<noteq> f"
  shows "seen_in_b (final (archive_file cfg flt g now t)) f = seen_in_b t f"
    and "map_of (waiting (final (archive_file cfg flt g now t))) f = map_of (waiting t) f"
    and "count_list (calls (final (archive_file cfg flt g now t)))
           (Copy2 x (path_join (folder_c cfg) f @ ''.tmp''))
         = count_list (calls t) (Copy2 x (path_join (folder_c cfg) f @ ''.tmp''))"
    and "clear_of cfg t p \<Longrightarrow> files (final (archive_file cfg flt g now t)) p = files t p"
proof -
  show "seen_in_b (final (archive_file cfg flt g now t)) f = seen_in_b t f"
    using archive_file_maps[of cfg flt g now t] assms by auto
  show "map_of (waiting (final (archive_file cfg flt g now t))) f = map_of (waiting t) f"
    using archive_file_maps[of cfg flt g now t] assms by auto
  show "count_list (calls (final (archive_file cfg flt g now t)))
           (Copy2 x (path_join (folder_c cfg) f @ ''.tmp''))
         = count_list (calls t) (Copy2 x (path_join (folder_c cfg) f @ ''.tmp''))"
  proof (cases "map_of (waiting t) g")
    case None
    then show ?thesis by (simp add: archive_file_def)
  next
    case (Some q)
    obtain pa ta where q: "q = (pa, ta)" by (cases q)
    have "path_join (folder_c cfg) g \<noteq> path_join (folder_c cfg) f"
      using assms path_join_inject by blast
    then show ?thesis
      using archive_file_local(1)[OF Some[unfolded q], of cfg flt now x
          "path_join (folder_c cfg) f @ ''.tmp''"]
      by simp
  qed
  show "files (final (archive_file cfg flt g now t)) p = files t p" if c: "clear_of cfg t p"
  proof (cases "map_of (waiting t) g")
    case None
    then show ?thesis by (simp add: archive_file_def)
  next
    case (Some q)
    obtain pa ta where q: "q = (pa, ta)" by (cases q)
    have "(g, pa, ta) \<in> set (waiting t)"
      using Some q by (simp add: map_of_SomeD)
    then have "p \<noteq> pa \<and> p \<noteq> path_join (folder_c cfg) g \<and> p \<noteq> path_join (folder_c cfg) g @ ''.tmp''"
      using c unfolding clear_of_def by fastforce
    then show ?thesis
      using archive_file_local(2)[OF Some[unfolded q], of p cfg flt now] by simp
  qed
qed

lemma clear_of_subset: "set (waiting t') \<subseteq> set (waiting t) \<Longrightarrow> clear_of cfg t p \<Longrightarrow> clear_of cfg t' p"
  unfolding clear_of_def by blast

lemma untouched_refl: "untouched cfg f x t t"
  by (simp add: untouched_def)

lemma untouched_trans:
  "untouched cfg f x t t' \<Longrightarrow> untouched cfg f x t' t'' \<Longrightarrow> untouched cfg f x t t''"
  by (auto simp: untouched_def)

lemma b_file_other:
  assumes "g \<noteq> f"
  shows "untouched cfg f x t (final (b_file cfg flt now g t))"
proof -
  let ?arch = "final (archive_file cfg (flt g) g now t)"
  have a: "untouched cfg f x t ?arch"
    unfolding untouched_def
    using clear_of_subset[OF archive_file_waiting_subset[of cfg "flt g" g now t]]
    by (simp add: archive_file_other[OF assms])
  have b: "untouched cfg f x t (t\<lparr>seen_in_b := (seen_in_b t)(g \<mapsto> now)\<rparr>)"
    using assms by (simp add: untouched_def clear_of_def)
  have "final (b_file cfg flt now g t) = t
      \<or> final (b_file cfg flt now g t) = t\<lparr>seen_in_b := (seen_in_b t)(g \<mapsto> now)\<rparr>
      \<or> final (b_file cfg flt now g t) = ?arch"
    by (simp add: b_file_def Let_def split: option.splits)
  then show ?thesis
    using a b untouched_refl[of cfg f x t] by metis
qed

lemma b_scan_other:
  assumes "f \<notin> set ks"
  shows "untouched cfg f x t (final (run_steps (map (b_file cfg flt now) ks) t))"
  using assms
proof (induction ks arbitrary: t)
  case Nil
  then show ?case by (simp add: untouched_refl)
next
  case (Cons k ks)
  have k: "untouched cfg f x t (final (b_file cfg flt now k t))"
    using Cons.prems by (intro b_file_other) auto
  show ?case
  proof (cases "b_file cfg flt now k t")
    case (Inl e)
    then show ?thesis using k by simp
  next
    case (Inr u)
    have "untouched cfg f x u (final (run_steps (map (b_file cfg flt now) ks) u))"
      using Cons by simp
    then show ?thesis
      using k Inr untouched_trans by fastforce
  qed
qed

text \<open>The scan reaches every key once, with the entries of that key as they were at the start.\<close>

lemma b_file_dwell:
  assumes "files s (path_join (folder_b cfg) filename) \<noteq> None"
  shows "(seen_in_b s filename = None \<longrightarrow>
            b_file cfg flt now filename s = Inr (s\<lparr>seen_in_b := (seen_in_b s)(filename \<mapsto> now)\<rparr>))
       \<and> (\<forall>seen. seen_in_b s filename = Some seen \<longrightarrow>
            ((b_file cfg flt now filename s = archive_file cfg (flt filename) filename now s)
               = (420 * 1000000 \<le> now - seen))
            \<and> (now - seen < 420 * 1000000 \<longrightarrow> b_file cfg flt now filename s = Inr s))"
  using assms archive_file_not_idle[of cfg "flt filename" filename now s]
  by (auto simp: b_file_def Let_def seconds_less_def ARCHIVE_DELAY_def)

lemma b_scan_split:
  assumes d: "distinct (map fst (waiting s))" and f: "map_of (waiting s) f = Some (pa, ta)"
  shows "\<exists>t u. untouched cfg f x s t
           \<and> b_file cfg (faults_b e) (now_b e) f t = Inr u
           \<and> untouched cfg f x u (final (process_folder_b cfg e s))"
proof -
  let ?b = "b_file cfg (faults_b e) (now_b e)"
  have "(f, pa, ta) \<in> set (waiting s)"
    using f by (rule map_of_SomeD)
  then have "fst (f, pa, ta) \<in> fst ` set (waiting s)"
    by (rule imageI)
  then have "f \<in> set (map fst (waiting s))"
    by simp
  from split_list[OF this] obtain before after
    where ks: "map fst (waiting s) = before @ f # after"
    by (elim exE)
  have d': "distinct (before @ f # after)"
    using d unfolding ks .
  have nb: "f \<notin> set before" and na: "f \<notin> set after" and db: "distinct before"
    using d' by simp_all
  have "set (map fst (waiting s)) = set (before @ f # after)"
    unfolding ks ..
  then have sub: "set before \<subseteq> fst ` set (waiting s)"
    by auto
  have "raised (run_steps (map ?b before) s) = None"
    using db sub by (rule b_scan_returns)
  then obtain t where t: "run_steps (map ?b before) s = Inr t"
    by (cases "run_steps (map ?b before) s") simp_all
  have ut: "untouched cfg f x s t"
    using b_scan_other[OF nb, of cfg x s "faults_b e" "now_b e"] t by simp
  then have "map_of (waiting t) f = Some (pa, ta)"
    using f by (simp add: untouched_def)
  then have "(f, pa, ta) \<in> set (waiting t)"
    by (rule map_of_SomeD)
  then have "fst (f, pa, ta) \<in> fst ` set (waiting t)"
    by (rule imageI)
  then have "f \<in> fst ` set (waiting t)"
    by simp
  then have "raised (?b f t) = None"
    by (rule b_file_returns)
  then obtain u where u: "?b f t = Inr u"
    by (cases "?b f t") simp_all
  have "process_folder_b cfg e s = run_steps (map ?b after) u"
    using t u by (simp add: process_folder_b_def ks run_steps_append)
  then have uu: "untouched cfg f x u (final (process_folder_b cfg e s))"
    using b_scan_other[OF na, of cfg x u "faults_b e" "now_b e"] by simp
  show ?thesis
    using ut u uu by (intro exI conjI)
qed

text \<open>
  Claim C7. In a scan of B, for a tracked file that exists in B (at a path that the
  archival of no tracked file reads or writes): with no sighting yet, the scan records its
  own time as the sighting, keeps the entry and calls no copy of the file; with a sighting,
  the scan calls the copy that begins the archival of the file, once, exactly when at
  least 420 seconds have passed since the sighting, and otherwise leaves sighting and entry
  as they are. The scan returns in every case. The last two parts say the same of the body
  of the loop.
\<close>

theorem dwell_threshold:
  assumes ok: "keys_ok s"
      and f: "map_of (waiting s) filename = Some (path_a, time_added)"
      and present: "files s (path_join (folder_b cfg) filename) \<noteq> None"
      and clear: "clear_of cfg s (path_join (folder_b cfg) filename)"
      and s': "s' = final (process_folder_b cfg e s)"
      and now: "now = now_b e"
      and copy: "copy = Copy2 path_a (path_join (folder_c cfg) filename @ ''.tmp'')"
  shows "raised (process_folder_b cfg e s) = None
       \<and> (seen_in_b s filename = None \<longrightarrow>
            seen_in_b s' filename = Some now
            \<and> map_of (waiting s') filename = Some (path_a, time_added)
            \<and> count_list (calls s') copy = count_list (calls s) copy)
       \<and> (\<forall>seen. seen_in_b s filename = Some seen \<longrightarrow>
            ((count_list (calls s') copy = count_list (calls s) copy + 1)
               = (420 * 1000000 \<le> now - seen))
            \<and> (now - seen < 420 * 1000000 \<longrightarrow>
                 count_list (calls s') copy = count_list (calls s) copy
                 \<and> seen_in_b s' filename = Some seen
                 \<and> map_of (waiting s') filename = Some (path_a, time_added)))
       \<and> (seen_in_b s filename = None \<longrightarrow>
            b_file cfg flt now filename s = Inr (s\<lparr>seen_in_b := (seen_in_b s)(filename \<mapsto> now)\<rparr>))
       \<and> (\<forall>seen. seen_in_b s filename = Some seen \<longrightarrow>
            ((b_file cfg flt now filename s = archive_file cfg (flt filename) filename now s)
               = (420 * 1000000 \<le> now - seen))
            \<and> (now - seen < 420 * 1000000 \<longrightarrow> b_file cfg flt now filename s = Inr s))"
proof -
  let ?pb = "path_join (folder_b cfg) filename"
  have ret: "raised (process_folder_b cfg e s) = None"
    using ok by (rule process_folder_b_returns)
  from b_scan_split[OF _ f, of cfg path_a e] ok obtain t u where
    st: "untouched cfg filename path_a s t" and
    tu: "b_file cfg (faults_b e) (now_b e) filename t = Inr u" and
    us: "untouched cfg filename path_a u s'"
    unfolding s' keys_ok_def by blast
  have t1: "seen_in_b t filename = seen_in_b s filename"
    and t2: "map_of (waiting t) filename = Some (path_a, time_added)"
    and t3: "count_list (calls t) copy = count_list (calls s) copy"
    and t4: "files t ?pb \<noteq> None"
    using st f present clear unfolding untouched_def copy by simp_all
  have s1: "seen_in_b s' filename = seen_in_b u filename"
    and s2: "map_of (waiting s') filename = map_of (waiting u) filename"
    and s3: "count_list (calls s') copy = count_list (calls u) copy"
    using us unfolding untouched_def copy by simp_all
  note d = b_file_dwell[OF t4, of "faults_b e" "now_b e"]
  have first: "seen_in_b s' filename = Some now
      \<and> map_of (waiting s') filename = Some (path_a, time_added)
      \<and> count_list (calls s') copy = count_list (calls s) copy"
    if "seen_in_b s filename = None"
  proof -
    have "u = t\<lparr>seen_in_b := (seen_in_b t)(filename \<mapsto> now_b e)\<rparr>"
      using d that t1 tu by simp
    then show ?thesis
      using s1 s2 s3 t2 t3 now by simp
  qed
  have wait: "count_list (calls s') copy = count_list (calls s) copy
      \<and> seen_in_b s' filename = Some seen
      \<and> map_of (waiting s') filename = Some (path_a, time_added)"
    if "seen_in_b s filename = Some seen" "now - seen < 420 * 1000000" for seen
  proof -
    have "u = t"
      using d that t1 tu now by simp
    then show ?thesis
      using s1 s2 s3 t1 t2 t3 that by simp
  qed
  have due: "count_list (calls s') copy = count_list (calls s) copy + 1"
    if "seen_in_b s filename = Some seen" "420 * 1000000 \<le> now - seen" for seen
  proof -
    have "Inr u = archive_file cfg (faults_b e filename) filename (now_b e) t"
      using d that t1 tu now by simp
    then have "u = final (archive_file cfg (faults_b e filename) filename (now_b e) t)"
      by (metis final_simps(2))
    then have "count_list (calls u) copy = count_list (calls t) copy + 1"
      using archive_file_local(1)[OF t2, of cfg "faults_b e filename" "now_b e" path_a
          "path_join (folder_c cfg) filename @ ''.tmp''"]
      by (simp add: copy)
    then show ?thesis using s3 t3 by simp
  qed
  have iff: "(count_list (calls s') copy = count_list (calls s) copy + 1)
      = (420 * 1000000 \<le> now - seen)" if "seen_in_b s filename = Some seen" for seen
  proof (cases "420 * 1000000 \<le> now - seen")
    case True
    then show ?thesis using due[OF that] by simp
  next
    case False
    then show ?thesis using wait[OF that] by simp
  qed
  show ?thesis
    using ret first wait iff b_file_dwell[OF present, of flt now] by simp
qed

text \<open>
  One scan at second 920 over the queue of three files: the first is archived at 420
  seconds exactly, the second waits at 320 seconds, the third gets its first sighting.
\<close>

theorem dwell_threshold_witness:
  "raised (process_folder_b shop at_920 shop_queue) = None
   \<and> count_list (calls (final (process_folder_b shop at_920 shop_queue)))
        (Copy2 ''A/job2.iso'' ''C/job2.iso.tmp'') = 1
   \<and> count_list (calls (final (process_folder_b shop at_920 shop_queue)))
        (Copy2 ''A/job3.iso'' ''C/job3.iso.tmp'') = 0
   \<and> seen_in_b (final (process_folder_b shop at_920 shop_queue)) ''job3.iso'' = Some 600000000
   \<and> map_of (waiting (final (process_folder_b shop at_920 shop_queue))) ''job3.iso''
        = Some (''A/job3.iso'', 450000000)
   \<and> seen_in_b (final (process_folder_b shop at_920 shop_queue)) ''job4.iso'' = Some 920000000"
proof -
  have ok: "keys_ok shop_queue"
    by (simp add: keys_ok_def shop_queue_def)
  have w2: "map_of (waiting shop_queue) ''job2.iso'' = Some (''A/job2.iso'', 400000000)"
    and w3: "map_of (waiting shop_queue) ''job3.iso'' = Some (''A/job3.iso'', 450000000)"
    and w4: "map_of (waiting shop_queue) ''job4.iso'' = Some (''A/job4.iso'', 900000000)"
    by (simp_all add: shop_queue_def)
  have p: "path_join (folder_b shop) ''job2.iso'' = ''B/job2.iso''"
    "path_join (folder_b shop) ''job3.iso'' = ''B/job3.iso''"
    "path_join (folder_b shop) ''job4.iso'' = ''B/job4.iso''"
    "path_join (folder_c shop) ''job2.iso'' = ''C/job2.iso''"
    "path_join (folder_c shop) ''job3.iso'' = ''C/job3.iso''"
    "path_join (folder_c shop) ''job4.iso'' = ''C/job4.iso''"
    by code_simp+
  have f2: "files shop_queue (path_join (folder_b shop) ''job2.iso'') \<noteq> None"
    and f3: "files shop_queue (path_join (folder_b shop) ''job3.iso'') \<noteq> None"
    and f4: "files shop_queue (path_join (folder_b shop) ''job4.iso'') \<noteq> None"
    unfolding p by (simp_all add: shop_queue_def init_state_def)
  have c2: "clear_of shop shop_queue (path_join (folder_b shop) ''job2.iso'')"
    and c3: "clear_of shop shop_queue (path_join (folder_b shop) ''job3.iso'')"
    and c4: "clear_of shop shop_queue (path_join (folder_b shop) ''job4.iso'')"
    by code_simp+
  have s: "seen_in_b shop_queue ''job2.iso'' = Some 500000000"
    "seen_in_b shop_queue ''job3.iso'' = Some 600000000"
    "seen_in_b shop_queue ''job4.iso'' = None"
    "calls shop_queue = []"
    "now_b at_920 = 920000000"
    by (simp_all add: shop_queue_def init_state_def at_920_def quiet_def)
  show ?thesis
    using dwell_threshold[OF ok w2 f2 c2 refl refl refl, of at_920 "\<lambda>f. no_faults"]
      dwell_threshold[OF ok w3 f3 c3 refl refl refl, of at_920 "\<lambda>f. no_faults"]
      dwell_threshold[OF ok w4 f4 c4 refl refl refl, of at_920 "\<lambda>f. no_faults"]
    unfolding p s by simp
qed

section \<open>Exceptions in a tick\<close>

text \<open>
  Claim C3, as amended. An exception that leaves the intake scan ends the tick there: the
  state is the one that scan reached, with one more error, and the other two scans are not
  run. The scan of B lets no exception out, since a failed archival is caught and counted
  where it is made; so the report scan is run whenever the intake scan has returned, and an
  exception of the report scan, the last step, is counted by the tick. The loop goes on in
  every case: the next tick is run on the state the previous one left. The keys of
  \<^verbatim>\<open>waiting\<close> are those of a dictionary, as in every state the engine reaches.
\<close>

theorem tick_aborts_on_exception:
  assumes "keys_ok s"
      and "sa = final (process_folder_a cfg e s)"
      and "sb = final (process_folder_b cfg e sa)"
      and "sd = final (process_folder_d cfg e sb)"
  shows "(raised (process_folder_a cfg e s) \<noteq> None \<longrightarrow> tick cfg e s = sa\<lparr>errors := errors sa + 1\<rparr>)
       \<and> raised (process_folder_b cfg e sa) = None
       \<and> (raised (process_folder_a cfg e s) = None
            \<longrightarrow> tick cfg e s =
                 (if raised (process_folder_d cfg e sb) = None then sd
                  else sd\<lparr>errors := errors sd + 1\<rparr>))
       \<and> run cfg (es @ [e]) s
           = tick cfg e ((run cfg es s)\<lparr>files := outside e (files (run cfg es s))\<rparr>)"
proof -
  have r: "run cfg (es @ [e]) s
      = tick cfg e ((run cfg es s)\<lparr>files := outside e (files (run cfg es s))\<rparr>)"
    by (induction es arbitrary: s) simp_all
  have "keys_ok sa"
    unfolding assms(2) using assms(1) by (rule process_folder_a_keys_ok)
  then have b: "raised (process_folder_b cfg e sa) = None"
    by (rule process_folder_b_returns)
  show ?thesis
    using assms(2-4) r b
    by (auto simp: tick_def raised_def final_def split: sum.splits prod.splits)
qed

text \<open>
  Two ticks with an intake path that \<^verbatim>\<open>os.listdir\<close> rejects: both are run, each counts an
  error. And a tick in which the archival of \<^verbatim>\<open>job2.iso\<close> fails at the rename: the failure
  is counted, the scan of B returns and the report scan caches the report of \<^verbatim>\<open>job1.iso\<close>.
\<close>

theorem tick_aborts_on_exception_witness:
  "tick shop_nul report_tick (init_state Map.empty old_rows)
     = (final (process_folder_a shop_nul report_tick (init_state Map.empty old_rows)))
         \<lparr>errors := errors (final (process_folder_a shop_nul report_tick
                                   (init_state Map.empty old_rows))) + 1\<rparr>
   \<and> raised (process_folder_b shop failing_tick (final (process_folder_a shop failing_tick shop_state)))
     = None
   \<and> tick shop failing_tick shop_state
     = final (process_folder_d shop failing_tick
         (final (process_folder_b shop failing_tick
            (final (process_folder_a shop failing_tick shop_state)))))
   \<and> errors (tick shop failing_tick shop_state) = 1
   \<and> processed (tick shop failing_tick shop_state) = 0
   \<and> d_cache (tick shop failing_tick shop_state) ''#job1.iso.txt'' = Some 7
   \<and> run shop_nul ([report_tick] @ [report_tick]) (init_state Map.empty old_rows)
     = tick shop_nul report_tick
         ((run shop_nul [report_tick] (init_state Map.empty old_rows))
            \<lparr>files := outside report_tick
               (files (run shop_nul [report_tick] (init_state Map.empty old_rows)))\<rparr>)
   \<and> errors (run shop_nul ([report_tick] @ [report_tick]) (init_state Map.empty old_rows)) = 2"
proof -
  have k: "keys_ok (init_state Map.empty old_rows)" "keys_ok shop_state"
    by (simp_all add: keys_ok_def init_state_def shop_state_def)
  have a: "raised (process_folder_a shop_nul report_tick (init_state Map.empty old_rows)) \<noteq> None"
    by code_simp
  have b: "errors (run shop_nul ([report_tick] @ [report_tick]) (init_state Map.empty old_rows)) = 2"
    by code_simp
  have c: "raised (process_folder_a shop failing_tick shop_state) = None"
    by code_simp
  have d: "raised (process_folder_d shop failing_tick
         (final (process_folder_b shop failing_tick
            (final (process_folder_a shop failing_tick shop_state))))) = None"
    by code_simp
  have e: "errors (tick shop failing_tick shop_state) = 1"
    "processed (tick shop failing_tick shop_state) = 0"
    "d_cache (tick shop failing_tick shop_state) ''#job1.iso.txt'' = Some 7"
    by code_simp+
  note t1 = tick_aborts_on_exception[OF k(1) refl refl refl, of shop_nul report_tick "[report_tick]"]
  note t2 = tick_aborts_on_exception[OF k(2) refl refl refl, of shop failing_tick "[]"]
  have t3: "tick shop failing_tick shop_state
     = final (process_folder_d shop failing_tick
         (final (process_folder_b shop failing_tick
            (final (process_folder_a shop failing_tick shop_state)))))"
    using t2[THEN conjunct2, THEN conjunct2, THEN conjunct1] c d by (simp only: if_True simp_thms)
  show ?thesis
    using t1 t2[THEN conjunct2, THEN conjunct1] t3 a b e
    by blast
qed

text \<open>
  Claim C3 as stated fails: with a NUL character in the intake path, \<^verbatim>\<open>os.listdir\<close> raises
  \<^verbatim>\<open>ValueError\<close>, which \<^verbatim>\<open>_safe_listdir\<close> does not catch; the tick then ends with one error
  and the report of \<^verbatim>\<open>job1.iso\<close> is neither cached nor applied, although the report scan
  on its own does both.
\<close>

theorem tick_isolation_counterexample:
  "raised (process_folder_a shop_nul report_tick (init_state Map.empty old_rows)) = Some ValueError
   \<and> errors (tick shop_nul report_tick (init_state Map.empty old_rows)) = 1
   \<and> d_cache (tick shop_nul report_tick (init_state Map.empty old_rows)) ''#job1.iso.txt'' = None
   \<and> map material (db (tick shop_nul report_tick (init_state Map.empty old_rows))) = [''Brak'']
   \<and> raised (process_folder_d shop_nul report_tick (init_state Map.empty old_rows)) = None
   \<and> d_cache (final (process_folder_d shop_nul report_tick (init_state Map.empty old_rows)))
        ''#job1.iso.txt'' = Some 7
   \<and> map material (db (final (process_folder_d shop_nul report_tick
        (init_state Map.empty old_rows)))) = [''STEEL'']"
  by code_simp

section \<open>The report scan\<close>

text \<open>
  Claim C8. A report whose cached modification time is the current one is skipped: neither
  the cache nor the list of updates changes. Hence a second report scan over reports of the
  first one with the same modification times changes nothing at all, whatever the reports
  now contain.
\<close>

theorem unchanged_report_skipped:
  "(d_cache s f = Some m \<and> mtime_d e f = Some m \<longrightarrow> d_file e f (s, ups) = (s, ups))
   \<and> (safe_listdir (listdir e) (folder_d cfg) = Inr names
        \<and> safe_listdir (listdir e') (folder_d cfg) = Inr names'
        \<and> set names' \<subseteq> set names \<and> (\<forall>g\<in>set names'. mtime_d e' g = mtime_d e g)
        \<and> s1 = final (process_folder_d cfg e s0)
      \<longrightarrow> process_folder_d cfg e' s1 = Inr s1)"
proof (intro conjI impI)
  assume "d_cache s f = Some m \<and> mtime_d e f = Some m"
  then show "d_file e f (s, ups) = (s, ups)"
    by (intro d_file_skip) simp
next
  assume h: "safe_listdir (listdir e) (folder_d cfg) = Inr names
        \<and> safe_listdir (listdir e') (folder_d cfg) = Inr names'
        \<and> set names' \<subseteq> set names \<and> (\<forall>g\<in>set names'. mtime_d e' g = mtime_d e g)
        \<and> s1 = final (process_folder_d cfg e s0)"
  let ?r = "scan_d e names s0"
  have s1: "d_cache s1 = d_cache (fst ?r)"
    using h batch_rest[of "update_raises e" "snd ?r" "fst ?r"]
    by (simp add: process_folder_d_def Let_def)
  have "scan_d e' names' s1 = (s1, [])"
  proof (rule scan_d_idle)
    fix g
    assume g: "g \<in> set names'" "rx_search False TXT_PATTERN g \<noteq> None" "mtime_d e' g \<noteq> None"
    then obtain mt where mt: "mtime_d e g = Some mt" "mtime_d e' g = Some mt"
      using h by auto
    have "g \<in> set names" using g(1) h by auto
    then have "d_cache (fst ?r) g = Some mt"
      using g(2) mt(1) by (rule scan_d_cached)
    then show "d_cache s1 g = mtime_d e' g"
      using s1 mt by simp
  qed
  then show "process_folder_d cfg e' s1 = Inr s1"
    using h by (simp add: process_folder_d_def Let_def)
qed

text \<open>
  The report of \<^verbatim>\<open>job1.iso\<close>, scanned twice.
\<close>

theorem unchanged_report_skipped_witness:
  "d_file report_tick ''#job1.iso.txt'' (shop_state\<lparr>d_cache := [''#job1.iso.txt'' \<mapsto> 7]\<rparr>, [])
     = (shop_state\<lparr>d_cache := [''#job1.iso.txt'' \<mapsto> 7]\<rparr>, [])
   \<and> process_folder_d shop report_tick
        (final (process_folder_d shop report_tick (init_state Map.empty old_rows)))
     = Inr (final (process_folder_d shop report_tick (init_state Map.empty old_rows)))
   \<and> map material (db (final (process_folder_d shop report_tick (init_state Map.empty old_rows))))
     = [''STEEL'']"
proof -
  have a: "d_cache (shop_state\<lparr>d_cache := [''#job1.iso.txt'' \<mapsto> 7]\<rparr>) ''#job1.iso.txt'' = Some 7
      \<and> mtime_d report_tick ''#job1.iso.txt'' = Some 7"
    by (simp add: report_tick_def quiet_def)
  have b: "safe_listdir (listdir report_tick) (folder_d shop) = Inr [''#job1.iso.txt'', ''notes.txt'']"
    by code_simp
  have c: "map material (db (final (process_folder_d shop report_tick (init_state Map.empty old_rows))))
     = [''STEEL'']"
    by code_simp
  have d: "\<forall>g\<in>set [''#job1.iso.txt'', ''notes.txt'']. mtime_d report_tick g = mtime_d report_tick g"
    by simp
  note t = unchanged_report_skipped[where s = "shop_state\<lparr>d_cache := [''#job1.iso.txt'' \<mapsto> 7]\<rparr>"
      and f = "''#job1.iso.txt''" and m = 7 and e = report_tick and ups = "[]" and cfg = shop
      and names = "[''#job1.iso.txt'', ''notes.txt'']" and e' = report_tick
      and names' = "[''#job1.iso.txt'', ''notes.txt'']"
      and ?s1.0 = "final (process_folder_d shop report_tick (init_state Map.empty old_rows))"
      and s0 = "init_state Map.empty old_rows"]
  show ?thesis
    using t a b c d by blast
qed

text \<open>A report that is skipped, or only cached, leaves the rest of the scan as it is.\<close>

lemma d_file_env:
  assumes "mtime_d e' = mtime_d e" and "read_d e' = read_d e"
  shows "d_file e' g acc = d_file e g acc"
  unfolding d_file_def assms ..

lemma scan_d_env:
  assumes "mtime_d e' = mtime_d e" and "read_d e' = read_d e"
  shows "scan_d e' names s = scan_d e names s"
  by (induction names rule: rev_induct) (simp_all add: scan_d_def d_file_env[OF assms])

lemma safe_listdir_without:
  "safe_listdir (listdir (without f e)) p =
     (case safe_listdir (listdir e) p of Inl x \<Rightarrow> Inl x | Inr names \<Rightarrow> Inr (removeAll f names))"
  by (simp add: safe_listdir_def os_listdir_def without_def split: listing.splits)

lemma process_folder_d_without:
  "process_folder_d cfg (without f e) s =
     (case safe_listdir (listdir e) (folder_d cfg) of
        Inl x \<Rightarrow> Inl (x, s)
      | Inr names \<Rightarrow>
          (let r = scan_d e (removeAll f names) s
           in run_steps (map (apply_update (update_raises e)) (snd r)) (fst r)))"
proof -
  have "scan_d (without f e) ns s = scan_d e ns s" for ns
    by (rule scan_d_env) (simp_all add: without_def)
  moreover have "update_raises (without f e) = update_raises e"
    by (simp add: without_def)
  ultimately show ?thesis
    by (simp add: process_folder_d_def safe_listdir_without split: sum.splits)
qed

lemma d_file_upd:
  assumes "g \<noteq> f"
  shows "d_file e g (t\<lparr>d_cache := (d_cache t)(f \<mapsto> m)\<rparr>, ups) =
           ((fst (d_file e g (t, ups)))\<lparr>d_cache := (d_cache (fst (d_file e g (t, ups))))(f \<mapsto> m)\<rparr>,
            snd (d_file e g (t, ups)))"
  using assms by (simp add: d_file_def Let_def fun_upd_twist split: option.splits)

lemma scan_d_cache_other:
  "f \<notin> set names \<Longrightarrow> d_cache (fst (scan_d e names s)) f = d_cache s f"
  by (induction names rule: rev_induct) (auto simp: scan_d_snoc d_file_cache scan_d_def)

lemma scan_d_drop:
  assumes "rx_search False TXT_PATTERN f \<noteq> None \<longrightarrow> mtime_d e f \<noteq> None
             \<longrightarrow> d_cache s f = mtime_d e f"
  shows "scan_d e names s = scan_d e (removeAll f names) s"
proof (induction names rule: rev_induct)
  case Nil
  then show ?case by simp
next
  case (snoc g names)
  show ?case
  proof (cases "g = f")
    case True
    have "d_cache (fst (scan_d e (removeAll f names) s)) f = d_cache s f"
      by (rule scan_d_cache_other) simp
    then have "d_file e f (scan_d e (removeAll f names) s) = scan_d e (removeAll f names) s"
      using assms by (intro d_file_skip) simp
    then show ?thesis using snoc True by (simp add: scan_d_snoc)
  next
    case False
    then show ?thesis using snoc by (simp add: scan_d_snoc)
  qed
qed

lemma cache_upd_idem: "d_cache t f = Some m \<Longrightarrow> t\<lparr>d_cache := (d_cache t)(f \<mapsto> m)\<rparr> = t"
  by (simp add: fun_upd_idem)

lemma scan_d_without:
  assumes named: "rx_search False TXT_PATTERN f \<noteq> None" and mt: "mtime_d e f = Some m"
      and bad: "rx_search False ISO_EXTRACT_PATTERN f = None \<or> read_d e f = None"
      and r: "r = scan_d e (removeAll f names) s"
  shows "scan_d e names s =
           (if f \<in> set names then ((fst r)\<lparr>d_cache := (d_cache (fst r))(f \<mapsto> m)\<rparr>, snd r) else r)"
  using r
proof (induction names arbitrary: r rule: rev_induct)
  case Nil
  then show ?case by simp
next
  case (snoc g names)
  define q where "q = scan_d e (removeAll f names) s"
  note ih = snoc.IH[OF q_def]
  let ?u = "\<lambda>t. t\<lparr>d_cache := (d_cache t)(f \<mapsto> m)\<rparr>"
  show ?case
  proof (cases "g = f")
    case True
    then have r: "r = q" using snoc.prems q_def by simp
    have skip: "d_file e f (?u (fst q), snd q) = (?u (fst q), snd q)"
      by (rule d_file_skip) (simp add: mt)
    have first: "d_file e f q = (?u (fst q), snd q)"
    proof (cases "d_cache (fst q) f = Some m")
      case True
      then have "d_file e f q = q"
        by (intro d_file_skip) (simp add: mt)
      then show ?thesis using cache_upd_idem[OF True] by simp
    next
      case False
      then show ?thesis
        using named mt bad by (cases q) (auto simp: d_file_def Let_def split: option.splits)
    qed
    have "d_file e f (scan_d e names s) = (?u (fst q), snd q)"
    proof (cases "f \<in> set names")
      case True
      then have "scan_d e names s = (?u (fst q), snd q)"
        by (simp only: ih if_True)
      then show ?thesis by (simp only: skip)
    next
      case False
      then have "scan_d e names s = q"
        by (simp only: ih if_False)
      then show ?thesis by (simp only: first)
    qed
    moreover have "f \<in> set (names @ [g])"
      using True by simp
    ultimately show ?thesis
      unfolding scan_d_snoc True r by (simp only: if_True)
  next
    case False
    then have r: "r = d_file e g q"
      using snoc.prems q_def by (simp add: scan_d_snoc)
    have upd: "d_file e g (?u (fst q), snd q) = (?u (fst r), snd r)"
      unfolding r using d_file_upd[OF False, of e "fst q" m "snd q"] by simp
    have mem: "(f \<in> set (names @ [g])) = (f \<in> set names)"
      using False by auto
    show ?thesis
    proof (cases "f \<in> set names")
      case True
      then have "scan_d e names s = (?u (fst q), snd q)"
        by (simp only: ih if_True)
      then have "scan_d e (names @ [g]) s = (?u (fst r), snd r)"
        by (simp only: scan_d_snoc upd)
      then show ?thesis
        using True by (simp only: mem if_True)
    next
      case nin: False
      then have "scan_d e names s = q"
        by (simp only: ih if_False)
      then have "scan_d e (names @ [g]) s = r"
        by (simp only: scan_d_snoc r)
      then show ?thesis
        using nin by (simp only: mem if_False)
    qed
  qed
qed

lemma apply_update_cache:
  "apply_update rs u (t\<lparr>d_cache := c\<rparr>) =
     (case apply_update rs u t of
        Inl x \<Rightarrow> Inl (fst x, (snd x)\<lparr>d_cache := c\<rparr>)
      | Inr t' \<Rightarrow> Inr (t'\<lparr>d_cache := c\<rparr>))"
  by (cases u) (simp add: apply_update_def)

lemma batch_cache:
  "run_steps (map (apply_update rs) us) (t\<lparr>d_cache := c\<rparr>) =
     (case run_steps (map (apply_update rs) us) t of
        Inl x \<Rightarrow> Inl (fst x, (snd x)\<lparr>d_cache := c\<rparr>)
      | Inr t' \<Rightarrow> Inr (t'\<lparr>d_cache := c\<rparr>))"
proof (induction us arbitrary: t)
  case Nil
  then show ?case by simp
next
  case (Cons u us)
  show ?case
    by (cases "apply_update rs u t") (simp_all add: apply_update_cache Cons)
qed

lemma batch_cache_final:
  "final (run_steps (map (apply_update rs) us) (t\<lparr>d_cache := c\<rparr>))
     = (final (run_steps (map (apply_update rs) us) t))\<lparr>d_cache := c\<rparr>
   \<and> raised (run_steps (map (apply_update rs) us) (t\<lparr>d_cache := c\<rparr>))
     = raised (run_steps (map (apply_update rs) us) t)"
  by (simp add: batch_cache final_def raised_def split: sum.splits)

lemma process_folder_d_cache:
  assumes "safe_listdir (listdir e) (folder_d cfg) = Inr names"
  shows "d_cache (final (process_folder_d cfg e s)) = d_cache (fst (scan_d e names s))"
  using assms batch_rest[of "update_raises e" "snd (scan_d e names s)" "fst (scan_d e names s)"]
  by (simp add: process_folder_d_def Let_def)

lemma process_folder_d_drop:
  assumes "rx_search False TXT_PATTERN f \<noteq> None \<longrightarrow> mtime_d e f \<noteq> None
             \<longrightarrow> d_cache s f = mtime_d e f"
  shows "process_folder_d cfg e s = process_folder_d cfg (without f e) s
       \<and> d_cache (final (process_folder_d cfg e s)) f = d_cache s f"
proof (cases "safe_listdir (listdir e) (folder_d cfg)")
  case (Inl x)
  then show ?thesis
    by (simp add: process_folder_d_without) (simp add: process_folder_d_def)
next
  case (Inr names)
  have a: "scan_d e names s = scan_d e (removeAll f names) s"
    using assms by (rule scan_d_drop)
  have "d_cache (fst (scan_d e (removeAll f names) s)) f = d_cache s f"
    by (rule scan_d_cache_other) simp
  then have "d_cache (final (process_folder_d cfg e s)) f = d_cache s f"
    using process_folder_d_cache[OF Inr, of s] a by simp
  moreover have "process_folder_d cfg e s = process_folder_d cfg (without f e) s"
    using Inr a by (simp add: process_folder_d_without) (simp add: process_folder_d_def)
  ultimately show ?thesis by simp
qed

lemma process_folder_d_bad:
  assumes listed: "safe_listdir (listdir e) (folder_d cfg) = Inr names" and mem: "f \<in> set names"
      and named: "rx_search False TXT_PATTERN f \<noteq> None" and mt: "mtime_d e f = Some m"
      and bad: "rx_search False ISO_EXTRACT_PATTERN f = None \<or> read_d e f = None"
      and x: "x = final (process_folder_d cfg (without f e) s)"
  shows "final (process_folder_d cfg e s) = x\<lparr>d_cache := (d_cache x)(f \<mapsto> m)\<rparr>
       \<and> raised (process_folder_d cfg e s) = raised (process_folder_d cfg (without f e) s)"
proof -
  define r where "r = scan_d e (removeAll f names) s"
  let ?batch = "run_steps (map (apply_update (update_raises e)) (snd r))"
  have w: "process_folder_d cfg (without f e) s = ?batch (fst r)"
    using listed by (simp add: process_folder_d_without r_def Let_def)
  have "scan_d e names s = ((fst r)\<lparr>d_cache := (d_cache (fst r))(f \<mapsto> m)\<rparr>, snd r)"
    using scan_d_without[OF named mt bad r_def] mem by (simp only: if_True)
  then have d: "process_folder_d cfg e s = ?batch ((fst r)\<lparr>d_cache := (d_cache (fst r))(f \<mapsto> m)\<rparr>)"
    using listed by (simp add: process_folder_d_def Let_def)
  have c: "d_cache x = d_cache (fst r)"
    unfolding x w using batch_rest[of "update_raises e" "snd r" "fst r"] by simp
  have c': "d_cache (final (?batch (fst r))) = d_cache (fst r)"
    using c unfolding x w .
  show ?thesis
    unfolding d x w c'[symmetric]
    unfolding c'
    by (rule batch_cache_final)
qed

text \<open>
  Claim C9. A report scan enters every listed \<^verbatim>\<open>.txt\<close> file whose modification time can be
  read in the cache with that time, whatever the rest of its name and its content. When the
  name does not follow the convention or the content cannot be read, that is all the scan
  does for this file: it ends in the state
  that the scan of the folder without the file ends in, but for the entry of the cache,
  and raises what that scan raises. And as long as the modification time stays the same,
  every later report scan runs as if the file were not listed, even if it could now be
  read. The last part says the same of the body of the loop.
\<close>

theorem report_cached_before_parsing:
  assumes listed: "safe_listdir (listdir e) (folder_d cfg) = Inr names" and mem: "f \<in> set names"
      and named: "rx_search False TXT_PATTERN f \<noteq> None" and mt: "mtime_d e f = Some m"
      and s1: "s1 = final (process_folder_d cfg e s)"
      and x: "x = final (process_folder_d cfg (without f e) s)"
  shows "d_cache s1 f = Some m
       \<and> (rx_search False ISO_EXTRACT_PATTERN f = None \<or> read_d e f = None \<longrightarrow>
            s1 = x\<lparr>d_cache := (d_cache x)(f \<mapsto> m)\<rparr>
            \<and> raised (process_folder_d cfg e s) = raised (process_folder_d cfg (without f e) s))
       \<and> (\<forall>e2::env. mtime_d e2 f = Some m \<longrightarrow>
            process_folder_d cfg e2 s1 = process_folder_d cfg (without f e2) s1
            \<and> d_cache (final (process_folder_d cfg e2 s1)) f = Some m)
       \<and> (d_cache s f \<noteq> Some m \<longrightarrow>
            d_cache (fst (d_file e f (s, ups))) f = Some m
            \<and> (rx_search False ISO_EXTRACT_PATTERN f = None \<or> read_d e f = None \<longrightarrow>
                 d_file e f (s, ups) = (s\<lparr>d_cache := (d_cache s)(f \<mapsto> m)\<rparr>, ups)
                 \<and> (\<forall>e2::env. mtime_d e2 f = Some m \<longrightarrow>
                      d_file e2 f (s\<lparr>d_cache := (d_cache s)(f \<mapsto> m)\<rparr>, ups)
                        = (s\<lparr>d_cache := (d_cache s)(f \<mapsto> m)\<rparr>, ups))))"
proof (intro conjI impI allI)
  show c: "d_cache s1 f = Some m"
    unfolding s1 process_folder_d_cache[OF listed]
    using mem named mt by (rule scan_d_cached)
  {
    fix e2 :: env
    assume "mtime_d e2 f = Some m"
    then have "rx_search False TXT_PATTERN f \<noteq> None \<longrightarrow> mtime_d e2 f \<noteq> None
        \<longrightarrow> d_cache s1 f = mtime_d e2 f"
      using c by simp
    note drop = process_folder_d_drop[OF this, of cfg]
    show "process_folder_d cfg e2 s1 = process_folder_d cfg (without f e2) s1"
      using drop by (rule conjunct1)
    show "d_cache (final (process_folder_d cfg e2 s1)) f = Some m"
      using drop[THEN conjunct2] c by (rule trans)
  }
  {
    assume bad: "rx_search False ISO_EXTRACT_PATTERN f = None \<or> read_d e f = None"
    note process_folder_d_bad[OF listed mem named mt bad x]
    then show "s1 = x\<lparr>d_cache := (d_cache x)(f \<mapsto> m)\<rparr>"
      and "raised (process_folder_d cfg e s) = raised (process_folder_d cfg (without f e) s)"
      unfolding s1 by simp_all
  }
  show "d_cache (fst (d_file e f (s, ups))) f = Some m"
    using named mt by (simp add: d_file_cache)
  {
    assume "d_cache s f \<noteq> Some m"
      and "rx_search False ISO_EXTRACT_PATTERN f = None \<or> read_d e f = None"
    then show "d_file e f (s, ups) = (s\<lparr>d_cache := (d_cache s)(f \<mapsto> m)\<rparr>, ups)"
      using named mt by (auto simp: d_file_def Let_def split: option.splits)
  }
  {
    fix e2 :: env
    assume "mtime_d e2 f = Some m"
    then show "d_file e2 f (s\<lparr>d_cache := (d_cache s)(f \<mapsto> m)\<rparr>, ups)
        = (s\<lparr>d_cache := (d_cache s)(f \<mapsto> m)\<rparr>, ups)"
      by (intro d_file_skip) simp
  }
qed

text \<open>
  A scan over a folder with a file outside the naming convention, and a scan in which the
  report of \<^verbatim>\<open>job1.iso\<close> cannot be read: the next scan reads it no more, the row keeps its
  fields.
\<close>

theorem report_cached_before_parsing_witness:
  "d_cache (final (process_folder_d shop report_tick (init_state Map.empty old_rows))) ''notes.txt''
     = Some 7
   \<and> final (process_folder_d shop report_tick (init_state Map.empty old_rows))
     = (final (process_folder_d shop (without ''notes.txt'' report_tick) (init_state Map.empty old_rows)))
         \<lparr>d_cache := (d_cache (final (process_folder_d shop (without ''notes.txt'' report_tick)
                                  (init_state Map.empty old_rows))))(''notes.txt'' \<mapsto> 7)\<rparr>
   \<and> map material (db (final (process_folder_d shop report_tick (init_state Map.empty old_rows))))
     = [''STEEL'']
   \<and> d_cache (final (process_folder_d shop unreadable (init_state Map.empty old_rows))) ''#job1.iso.txt''
     = Some 7
   \<and> db (final (process_folder_d shop unreadable (init_state Map.empty old_rows))) = old_rows
   \<and> process_folder_d shop report_tick
        (final (process_folder_d shop unreadable (init_state Map.empty old_rows)))
     = process_folder_d shop (without ''#job1.iso.txt'' report_tick)
        (final (process_folder_d shop unreadable (init_state Map.empty old_rows)))
   \<and> db (final (process_folder_d shop report_tick
        (final (process_folder_d shop unreadable (init_state Map.empty old_rows))))) = old_rows"
proof -
  let ?s0 = "init_state Map.empty old_rows"
  have l: "safe_listdir (listdir report_tick) (folder_d shop) = Inr [''#job1.iso.txt'', ''notes.txt'']"
    "safe_listdir (listdir unreadable) (folder_d shop) = Inr [''#job1.iso.txt'', ''notes.txt'']"
    by code_simp+
  have i: "''notes.txt'' \<in> set [''#job1.iso.txt'', ''notes.txt'']"
    "''#job1.iso.txt'' \<in> set [''#job1.iso.txt'', ''notes.txt'']"
    by simp_all
  have n: "rx_search False TXT_PATTERN ''notes.txt'' \<noteq> None"
    "rx_search False TXT_PATTERN ''#job1.iso.txt'' \<noteq> None"
    "rx_search False ISO_EXTRACT_PATTERN ''notes.txt'' = None"
    by code_simp+
  have m: "mtime_d report_tick ''notes.txt'' = Some 7"
    "mtime_d unreadable ''#job1.iso.txt'' = Some 7"
    "mtime_d report_tick ''#job1.iso.txt'' = Some 7"
    "read_d unreadable ''#job1.iso.txt'' = None"
    by (simp_all add: report_tick_def quiet_def unreadable_def)
  have d: "map material (db (final (process_folder_d shop report_tick ?s0))) = [''STEEL'']"
    "db (final (process_folder_d shop (without ''#job1.iso.txt'' unreadable) ?s0)) = old_rows"
    by code_simp+
  note a = report_cached_before_parsing[OF l(1) i(1) n(1) m(1) refl refl, of ?s0 "[]"]
  note b = report_cached_before_parsing[OF l(2) i(2) n(2) m(2) refl refl, of ?s0 "[]"]
  have a1: "d_cache (final (process_folder_d shop report_tick ?s0)) ''notes.txt'' = Some 7"
    using a by (rule conjunct1)
  have a2: "final (process_folder_d shop report_tick ?s0)
     = (final (process_folder_d shop (without ''notes.txt'' report_tick) ?s0))
         \<lparr>d_cache := (d_cache (final (process_folder_d shop (without ''notes.txt'' report_tick)
                                  ?s0)))(''notes.txt'' \<mapsto> 7)\<rparr>"
    using a[THEN conjunct2, THEN conjunct1] n(3) by blast
  have b1: "d_cache (final (process_folder_d shop unreadable ?s0)) ''#job1.iso.txt'' = Some 7"
    using b by (rule conjunct1)
  have b2: "final (process_folder_d shop unreadable ?s0)
     = (final (process_folder_d shop (without ''#job1.iso.txt'' unreadable) ?s0))
         \<lparr>d_cache := (d_cache (final (process_folder_d shop (without ''#job1.iso.txt'' unreadable)
                                  ?s0)))(''#job1.iso.txt'' \<mapsto> 7)\<rparr>"
    using b[THEN conjunct2, THEN conjunct1] m(4) by blast
  have b3: "db (final (process_folder_d shop unreadable ?s0)) = old_rows"
    using arg_cong[OF b2, of db] d(2) by simp
  have b4: "process_folder_d shop report_tick (final (process_folder_d shop unreadable ?s0))
     = process_folder_d shop (without ''#job1.iso.txt'' report_tick)
        (final (process_folder_d shop unreadable ?s0))"
    using b[THEN conjunct2, THEN conjunct2, THEN conjunct1] m(3) by blast
  have b5: "db (final (process_folder_d shop (without ''#job1.iso.txt'' report_tick)
        (final (process_folder_d shop unreadable ?s0)))) = old_rows"
    by code_simp
  show ?thesis
    using a1 a2 d(1) b1 b3 b4 b5 by (simp only: simp_thms)
qed

section \<open>The text extractor\<close>

lemma take_takeWhile_all:
  assumes "k \<le> length (takeWhile p s)"
  shows "k \<le> length s \<and> (\<forall>x\<in>set (take k s). p x)"
proof -
  have "take k s = take k (takeWhile p s)"
    using assms by (metis takeWhile_eq_take take_take min.absorb1)
  then have "\<forall>x\<in>set (take k s). p x"
    by (metis in_set_takeD set_takeWhileD)
  moreover have "k \<le> length s"
    using assms length_takeWhile_le[of p s] by simp
  ultimately show ?thesis by simp
qed

lemma rx_step_consumed:
  assumes "(s', g') \<in> set (rx_step ml r (s, g))"
      and sem: "\<forall>c x. Q c \<longrightarrow> cls_match c x \<longrightarrow> P x"
  shows "\<exists>k\<le>length s. s' = drop k s \<and> (consumes Q r \<longrightarrow> (\<forall>x\<in>set (take k s). P x))"
  using assms(1)
proof (induction r arbitrary: s g s' g')
  case (Atom c)
  then obtain x where "s = x # s'" "cls_match c x"
    by (auto split: list.splits if_splits)
  then show ?case
    using sem by (intro exI[of _ 1]) auto
next
  case (Greedy c lo hi)
  from Greedy obtain k where k: "s' = drop k s" "k \<le> length (takeWhile (cls_match c) s)"
    by (auto simp: Let_def split: option.splits)
  from take_takeWhile_all[OF k(2)] show ?case
    using k(1) sem by (intro exI[of _ k]) auto
next
  case (Lazy c lo)
  from Lazy obtain k where k: "s' = drop k s" "k \<le> length (takeWhile (cls_match c) s)"
    by (auto simp: Let_def)
  from take_takeWhile_all[OF k(2)] show ?case
    using k(1) sem by (intro exI[of _ k]) auto
next
  case (Seq a b)
  from Seq.prems obtain s1 g1 where
    1: "(s1, g1) \<in> set (rx_step ml a (s, g))" and 2: "(s', g') \<in> set (rx_step ml b (s1, g1))"
    by auto
  from Seq.IH(1)[OF 1] obtain k1 where
    k1: "k1 \<le> length s" "s1 = drop k1 s" "consumes Q a \<longrightarrow> (\<forall>x\<in>set (take k1 s). P x)"
    by blast
  from Seq.IH(2)[OF 2] obtain k2 where
    k2: "k2 \<le> length s1" "s' = drop k2 s1" "consumes Q b \<longrightarrow> (\<forall>x\<in>set (take k2 s1). P x)"
    by blast
  have "take (k1 + k2) s = take k1 s @ take k2 (drop k1 s)"
    by (simp add: take_add)
  then have "consumes Q (Seq a b) \<longrightarrow> (\<forall>x\<in>set (take (k1 + k2) s). P x)"
    using k1 k2 by auto
  moreover have "k1 + k2 \<le> length s" "s' = drop (k1 + k2) s"
    using k1 k2 by (simp_all add: add.commute)
  ultimately show ?case by blast
next
  case (Alt a b)
  then have "(s', g') \<in> set (rx_step ml a (s, g)) \<or> (s', g') \<in> set (rx_step ml b (s, g))"
    by auto
  then show ?case
    using Alt.IH by (metis consumes.simps(5))
next
  case (Opt a)
  then have "(s', g') \<in> set (rx_step ml a (s, g)) \<or> s' = s"
    by auto
  then show ?case
  proof
    assume "(s', g') \<in> set (rx_step ml a (s, g))"
    then show ?thesis using Opt.IH by (metis consumes.simps(6))
  next
    assume "s' = s"
    then show ?thesis by (intro exI[of _ 0]) simp
  qed
next
  case (Grp a)
  then obtain g0 where "(s', g0) \<in> set (rx_step ml a (s, g))"
    by auto
  then show ?case using Grp.IH by (metis consumes.simps(7))
next
  case Eol
  then have "s' = s" by (auto split: if_splits)
  then show ?case by (intro exI[of _ 0]) simp
qed

lemma rx_step_group:
  assumes "(s', g') \<in> set (rx_step ml r (s, g))" and "groups_in Q r"
      and sem: "\<forall>c x. Q c \<longrightarrow> cls_match c x \<longrightarrow> P x"
  shows "g' = g \<or> (\<exists>t. g' = Some t \<and> (\<forall>x\<in>set t. P x))"
  using assms(1,2)
proof (induction r arbitrary: s g s' g')
  case (Seq a b)
  from Seq.prems obtain s1 g1 where
    1: "(s1, g1) \<in> set (rx_step ml a (s, g))" and 2: "(s', g') \<in> set (rx_step ml b (s1, g1))"
    by auto
  have "g1 = g \<or> (\<exists>t. g1 = Some t \<and> (\<forall>x\<in>set t. P x))"
    using Seq.IH(1)[OF 1] Seq.prems(2) by simp
  moreover have "g' = g1 \<or> (\<exists>t. g' = Some t \<and> (\<forall>x\<in>set t. P x))"
    using Seq.IH(2)[OF 2] Seq.prems(2) by simp
  ultimately show ?case by auto
next
  case (Alt a b)
  from Alt.prems have "(s', g') \<in> set (rx_step ml a (s, g)) \<or> (s', g') \<in> set (rx_step ml b (s, g))"
    by auto
  then show ?case
    using Alt.IH Alt.prems(2) by (metis groups_in.simps(2))
next
  case (Opt a)
  from Opt.prems have "(s', g') \<in> set (rx_step ml a (s, g)) \<or> g' = g"
    by auto
  then show ?case
    using Opt.IH Opt.prems(2) by (metis groups_in.simps(3))
next
  case (Grp a)
  from Grp.prems obtain g0 where in_a: "(s', g0) \<in> set (rx_step ml a (s, g))"
    and g': "g' = Some (take (length s - length s') s)"
    by auto
  from rx_step_consumed[OF in_a sem] obtain k where
    "k \<le> length s" "s' = drop k s" "\<forall>x\<in>set (take k s). P x"
    using Grp.prems(2) by auto
  then show ?case using g' by auto
qed (auto simp: Let_def split: list.splits if_splits option.splits)

lemma rx_search_group:
  assumes "rx_search ml r inp = Some t" and "groups_in Q r"
      and sem: "\<forall>c x. Q c \<longrightarrow> cls_match c x \<longrightarrow> P x"
  shows "\<forall>x\<in>set t. P x"
  using assms(1)
proof (induction inp)
  case Nil
  then obtain s' g' where "(s', g') \<in> set (rx_step ml r ([], None))"
    and t: "t = (case g' of None \<Rightarrow> [] | Some u \<Rightarrow> u)"
    by (auto split: list.splits)
  then show ?case
    using rx_step_group[OF _ assms(2) sem] by (fastforce split: option.splits)
next
  case (Cons c cs)
  show ?case
  proof (cases "rx_step ml r (c # cs, None)")
    case Nil
    then show ?thesis using Cons by simp
  next
    case step: (Cons p ps)
    obtain s' g' where p: "p = (s', g')" by (cases p)
    then have "(s', g') \<in> set (rx_step ml r (c # cs, None))"
      using step by simp
    moreover have "t = (case g' of None \<Rightarrow> [] | Some u \<Rightarrow> u)"
      using Cons.prems step p by simp
    ultimately show ?thesis
      using rx_step_group[OF _ assms(2) sem] by (fastforce split: option.splits)
  qed
qed

lemma colon_code: "(of_char CHR '':'' :: nat) = 58"
  by simp

lemma lower_colon: "lower x = CHR '':'' \<Longrightarrow> x = CHR '':''"
proof (cases "65 \<le> (of_char x :: nat) \<and> (of_char x :: nat) \<le> 90")
  case False
  then have "lower x = x"
    unfolding lower_def Let_def by (rule if_not_P)
  moreover assume "lower x = CHR '':''"
  ultimately show ?thesis by (simp only:)
next
  case True
  then have "lower x = char_of (of_char x + 32 :: nat)"
    unfolding lower_def Let_def by (rule if_P)
  moreover assume "lower x = CHR '':''"
  ultimately have "char_of (of_char x + 32 :: nat) = CHR '':''"
    by (simp only:)
  then have "(of_char (char_of (of_char x + 32 :: nat)) :: nat) = of_char CHR '':''"
    by (rule arg_cong)
  then have "(of_char x + 32 :: nat) mod 256 = 58"
    unfolding of_char_of colon_code .
  moreover have "(of_char x + 32 :: nat) < 256"
    using True by simp
  ultimately have "(of_char x + 32 :: nat) = 58"
    by (simp only: mod_less)
  then have False using True by simp
  then show ?thesis ..
qed

lemma lower_colon_self: "lower CHR '':'' = CHR '':''"
  by code_simp

lemma time_cls_char: "\<forall>c x. time_cls c \<longrightarrow> cls_match c x \<longrightarrow> time_char x"
proof (intro allI impI)
  fix c x
  assume "time_cls c" and m: "cls_match c x"
  then consider "c = Digit" | "c = Ch CHR '':''" | "c = OneOf ''.,''"
    unfolding time_cls_def by blast
  then show "time_char x"
  proof cases
    case 1
    then show ?thesis using m by (simp add: time_char_def)
  next
    case 2
    then have "lower x = lower CHR '':''"
      using m by (simp only: cls_match.simps)
    then have "lower x = CHR '':''"
      by (simp only: lower_colon_self)
    then have "x = CHR '':''" by (rule lower_colon)
    then show ?thesis by (simp add: time_char_def)
  next
    case 3
    then show ?thesis using m by (auto simp: time_char_def)
  qed
qed

lemma patterns_groups: "\<forall>p\<in>set patterns. groups_in time_cls p"
  by code_simp

lemma time_char_not_space: "time_char c \<Longrightarrow> c \<noteq> CHR '','' \<Longrightarrow> \<not> isspace c"
  by (auto simp: time_char_def isdigit_def isspace_def Let_def)

lemma strip_id:
  assumes "\<forall>x\<in>set s. \<not> isspace x"
  shows "strip s = s"
proof -
  have a: "dropWhile isspace t = t" if "\<forall>x\<in>set t. \<not> isspace x" for t
    using that by (cases t) simp_all
  have "dropWhile isspace (rev s) = rev s"
    by (rule a) (use assms in simp)
  then show ?thesis
    using a[OF assms] by (simp add: strip_def)
qed

lemma first_match_Some:
  assumes "\<forall>p\<in>set (take i ps). rx_search True p inp = None" and "i < length ps"
      and "rx_search True (ps ! i) inp = Some g"
  shows "first_match ps inp = Some g"
  using assms
proof (induction ps arbitrary: i)
  case Nil
  then show ?case by simp
next
  case (Cons p ps)
  show ?case
  proof (cases i)
    case 0
    then show ?thesis using Cons.prems by simp
  next
    case (Suc j)
    then have "rx_search True p inp = None" using Cons.prems by simp
    moreover have "first_match ps inp = Some g"
      using Cons.IH[of j] Cons.prems Suc by simp
    ultimately show ?thesis by simp
  qed
qed

lemma first_match_None:
  "\<forall>p\<in>set ps. rx_search True p inp = None \<Longrightarrow> first_match ps inp = None"
  by (induction ps) simp_all

lemma first_match_group:
  assumes "first_match ps inp = Some g" and "\<forall>p\<in>set ps. groups_in Q p"
      and "\<forall>c x. Q c \<longrightarrow> cls_match c x \<longrightarrow> P x"
  shows "\<forall>x\<in>set g. P x"
  using assms(1,2)
proof (induction ps)
  case Nil
  then show ?case by simp
next
  case (Cons p ps)
  show ?case
  proof (cases "rx_search True p inp")
    case None
    then show ?thesis using Cons by simp
  next
    case (Some t)
    then have "t = g" using Cons.prems by simp
    moreover have "groups_in Q p" using Cons.prems(2) by simp
    ultimately show ?thesis
      using rx_search_group[OF Some _ assms(3)] by simp
  qed
qed

lemma extract_cnc_time_matched:
  assumes "first_match patterns inp = Some g"
  shows "extract_cnc_time inp = replace_char CHR '','' CHR ''.'' g"
proof -
  have g: "\<forall>x\<in>set g. time_char x"
    using assms patterns_groups time_cls_char by (rule first_match_group)
  have "\<not> isspace y" if "y \<in> set (replace_char CHR '','' CHR ''.'' g)" for y
  proof -
    from that obtain x where x: "x \<in> set g" "y = (if x = CHR '','' then CHR ''.'' else x)"
      by (auto simp: replace_char_def)
    show ?thesis
    proof (cases "x = CHR '',''")
      case True
      then have "y = CHR ''.''" using x by simp
      then show ?thesis by (simp add: isspace_def)
    next
      case False
      then show ?thesis using x g time_char_not_space by auto
    qed
  qed
  then show ?thesis
    using assms by (simp add: extract_cnc_time_def strip_id)
qed

text \<open>
  Claim C4, as amended. The result is the text of group 1 of the first pattern, in the
  order of the list, that matches somewhere in the input (searched without regard to case
  and with \<^verbatim>\<open>$\<close> at every line end), with each comma replaced by a period; when no
  pattern matches it is the sentinel \<^verbatim>\<open>Brak\<close>. The result never contains a comma. The
  three inputs of the claim give 01:23:45, 00:05:00 and the sentinel.
\<close>

theorem extract_cnc_time_first_rule:
  "(\<forall>i g. i < length patterns \<and> (\<forall>p\<in>set (take i patterns). rx_search True p inp = None)
        \<and> rx_search True (patterns ! i) inp = Some g
      \<longrightarrow> extract_cnc_time inp = replace_char CHR '','' CHR ''.'' g)
   \<and> ((\<forall>p\<in>set patterns. rx_search True p inp = None) \<longrightarrow> extract_cnc_time inp = ''Brak'')
   \<and> CHR '','' \<notin> set (extract_cnc_time inp)
   \<and> extract_cnc_time ''Cycle Time: 01:23:45'' = ''01:23:45''
   \<and> extract_cnc_time '';TIME=00:05:00'' = ''00:05:00''
   \<and> extract_cnc_time ''no time here'' = ''Brak''"
proof -
  have a: "extract_cnc_time inp = replace_char CHR '','' CHR ''.'' g"
    if "i < length patterns \<and> (\<forall>p\<in>set (take i patterns). rx_search True p inp = None)
        \<and> rx_search True (patterns ! i) inp = Some g" for i g
  proof -
    have "first_match patterns inp = Some g"
      using that by (intro first_match_Some[of i]) simp_all
    then show ?thesis by (rule extract_cnc_time_matched)
  qed
  have b: "extract_cnc_time inp = ''Brak''" if "\<forall>p\<in>set patterns. rx_search True p inp = None"
    using first_match_None[OF that] by (simp add: extract_cnc_time_def)
  have c: "CHR '','' \<notin> set (extract_cnc_time inp)"
  proof (cases "first_match patterns inp")
    case None
    then show ?thesis by (simp add: extract_cnc_time_def)
  next
    case (Some g)
    then show ?thesis
      using extract_cnc_time_matched[OF Some] by (auto simp: replace_char_def)
  qed
  have d: "extract_cnc_time ''Cycle Time: 01:23:45'' = ''01:23:45''"
    "extract_cnc_time '';TIME=00:05:00'' = ''00:05:00''"
    "extract_cnc_time ''no time here'' = ''Brak''"
    by code_simp+
  show ?thesis
    by (intro conjI allI impI) (fact a b c d)+
qed

text \<open>
  A time in parentheses, found by the fourth pattern, and an input without a time.
\<close>

theorem extract_cnc_time_first_rule_witness:
  "rx_search True (patterns ! 3) ''Czas ciecia (00:12:34,5) OK'' = Some ''00:12:34,5''
   \<and> extract_cnc_time ''Czas ciecia (00:12:34,5) OK'' = ''00:12:34.5''
   \<and> extract_cnc_time ''M30'' = ''Brak''"
proof -
  have a: "3 < length patterns"
    "\<forall>p\<in>set (take 3 patterns). rx_search True p ''Czas ciecia (00:12:34,5) OK'' = None"
    "rx_search True (patterns ! 3) ''Czas ciecia (00:12:34,5) OK'' = Some ''00:12:34,5''"
    "\<forall>p\<in>set patterns. rx_search True p ''M30'' = None"
    "replace_char CHR '','' CHR ''.'' ''00:12:34,5'' = ''00:12:34.5''"
    by code_simp+
  note t1 = extract_cnc_time_first_rule[of "''Czas ciecia (00:12:34,5) OK''", THEN conjunct1,
      rule_format, of 3 "''00:12:34,5''"]
  note t2 = extract_cnc_time_first_rule[of "''M30''", THEN conjunct2, THEN conjunct1, THEN mp]
  have "extract_cnc_time ''Czas ciecia (00:12:34,5) OK'' = replace_char CHR '','' CHR ''.'' ''00:12:34,5''"
    using a(1,2,3) by (intro t1) simp
  then have "extract_cnc_time ''Czas ciecia (00:12:34,5) OK'' = ''00:12:34.5''"
    by (simp only: a(5))
  moreover have "extract_cnc_time ''M30'' = ''Brak''"
    using a(4) by (rule t2)
  ultimately show ?thesis
    using a(3) by (intro conjI)
qed

text \<open>
  Claim C4 as stated fails on the sentinel, which is \<^verbatim>\<open>Brak\<close>.
\<close>

theorem extract_cnc_time_sentinel_counterexample:
  "extract_cnc_time ''no time here'' = ''Brak'' \<and> extract_cnc_time ''no time here'' \<noteq> ''unknown''"
  by code_simp

text \<open>
  Claim C5, as amended. Only the non-blank lines count, each trimmed. Without such a line
  the result is the sentinel \<^verbatim>\<open>Brak\<close> twice. When the first line starts with neither
  \<^verbatim>\<open>(\<close> nor \<^verbatim>\<open>;\<close> it is the chosen line; otherwise the chosen line is the first of the next
  two that has a hyphen and does not start with \<^verbatim>\<open>(\<close>, and without one the result is the
  sentinel twice. The chosen line gives the fields of \<open>fields_of\<close>: no hyphen, the line cut
  to 50 characters and the sentinel; otherwise the trimmed parts left and right of the first
  hyphen, cut to 50 and 20 characters. Nothing is said of the thickness when the right
  part is empty.
\<close>

theorem parse_material_cases:
  assumes "lines = map strip (filter (\<lambda>l. strip l \<noteq> []) (splitlines inp))"
  shows "(lines = [] \<longrightarrow> parse_material inp = (''Brak'', ''Brak''))
       \<and> (\<forall>line0 rest. lines = line0 # rest
             \<and> \<not> (startswith ''('' line0 \<or> startswith '';'' line0)
            \<longrightarrow> fst (parse_material inp) = fst (fields_of line0)
                \<and> (snd (fields_of line0) \<noteq> []
                     \<longrightarrow> snd (parse_material inp) = snd (fields_of line0)))
       \<and> (\<forall>line0 rest. lines = line0 # rest
             \<and> (startswith ''('' line0 \<or> startswith '';'' line0)
             \<and> find (\<lambda>l. CHR ''-'' \<in> set l \<and> \<not> startswith ''('' l) (take 2 rest) = None
            \<longrightarrow> parse_material inp = (''Brak'', ''Brak''))
       \<and> (\<forall>line0 rest line. lines = line0 # rest
             \<and> (startswith ''('' line0 \<or> startswith '';'' line0)
             \<and> find (\<lambda>l. CHR ''-'' \<in> set l \<and> \<not> startswith ''('' l) (take 2 rest) = Some line
            \<longrightarrow> fst (parse_material inp) = fst (fields_of line)
                \<and> (snd (fields_of line) \<noteq> []
                     \<longrightarrow> snd (parse_material inp) = snd (fields_of line)))
       \<and> parse_material ''STEEL-3MM'' = (''STEEL'', ''3MM'')
       \<and> parse_material (''(comment)'' @ [CHR 0x0A] @ ''ALU - 5MM'' @ [CHR 0x0A]) = (''ALU'', ''5MM'')
       \<and> parse_material '''' = (''Brak'', ''Brak'')"
proof -
  have split: "split_once CHR ''-'' l ! 0 = takeWhile (\<lambda>c. c \<noteq> CHR ''-'') l
      \<and> split_once CHR ''-'' l ! 1 = tl (dropWhile (\<lambda>c. c \<noteq> CHR ''-'') l)
      \<and> length (split_once CHR ''-'' l) > 1" if "CHR ''-'' \<in> set l" for l
    using that by (simp add: split_once_def)
  have fields: "(if CHR ''-'' \<notin> set l then (take 50 l, ''Brak'')
       else (let parts = split_once CHR ''-'' l;
                 material = take 50 (strip (parts ! 0));
                 grubosc = (if length parts > 1 then take 20 (strip (parts ! 1)) else ''Brak'')
             in (material, grubosc))) = fields_of l" for l
    using split[of l] by (auto simp: fields_of_def Let_def)
  have pm: "parse_material inp =
     (case lines of
        [] \<Rightarrow> (''Brak'', ''Brak'')
      | line0 # rest \<Rightarrow>
          (case (if startswith ''('' line0 \<or> startswith '';'' line0
                 then find (\<lambda>line. CHR ''-'' \<in> set line \<and> \<not> startswith ''('' line) (take 2 rest)
                 else Some line0) of
             None \<Rightarrow> (''Brak'', ''Brak'')
           | Some first \<Rightarrow> fields_of first))"
    unfolding parse_material_def assms Let_def fields[unfolded Let_def] ..
  have ex: "parse_material ''STEEL-3MM'' = (''STEEL'', ''3MM'')"
    "parse_material (''(comment)'' @ [CHR 0x0A] @ ''ALU - 5MM'' @ [CHR 0x0A]) = (''ALU'', ''5MM'')"
    "parse_material '''' = (''Brak'', ''Brak'')"
    by code_simp+
  show ?thesis
    using ex by (simp add: pm)
qed

text \<open>
  Two comment lines before the material line; a lone comment; a line without a hyphen.
\<close>

theorem parse_material_cases_witness:
  "parse_material (''; plik 7'' @ [CHR 0x0D, CHR 0x0A] @ ''(x)'' @ [CHR 0x0A] @ '' DC01 - 2,5 - A '')
     = (''DC01'', ''2,5 - A'')
   \<and> parse_material (''(a-b)'') = (''Brak'', ''Brak'')
   \<and> parse_material ''STAL'' = (''STAL'', ''Brak'')"
proof -
  let ?t1 = "''; plik 7'' @ [CHR 0x0D, CHR 0x0A] @ ''(x)'' @ [CHR 0x0A] @ '' DC01 - 2,5 - A ''"
  have l1: "map strip (filter (\<lambda>l. strip l \<noteq> []) (splitlines ?t1))
      = ''; plik 7'' # [''(x)'', ''DC01 - 2,5 - A'']"
    by code_simp
  have c1: "startswith ''('' ''; plik 7'' \<or> startswith '';'' ''; plik 7''"
    "find (\<lambda>l. CHR ''-'' \<in> set l \<and> \<not> startswith ''('' l) (take 2 [''(x)'', ''DC01 - 2,5 - A''])
       = Some ''DC01 - 2,5 - A''"
    "fields_of ''DC01 - 2,5 - A'' = (''DC01'', ''2,5 - A'')"
    by code_simp+
  have l2: "map strip (filter (\<lambda>l. strip l \<noteq> []) (splitlines ''(a-b)'')) = ''(a-b)'' # []"
    by code_simp
  have c2: "startswith ''('' ''(a-b)'' \<or> startswith '';'' ''(a-b)''"
    "find (\<lambda>l. CHR ''-'' \<in> set l \<and> \<not> startswith ''('' l) (take 2 []) = None"
    by code_simp+
  have l3: "map strip (filter (\<lambda>l. strip l \<noteq> []) (splitlines ''STAL'')) = ''STAL'' # []"
    by code_simp
  have c3: "\<not> (startswith ''('' ''STAL'' \<or> startswith '';'' ''STAL'')"
    "fields_of ''STAL'' = (''STAL'', ''Brak'')"
    by code_simp+
  note t1 = parse_material_cases[OF l1[symmetric], THEN conjunct2, THEN conjunct2, THEN conjunct2,
      THEN conjunct1, rule_format, of "''; plik 7''" "[''(x)'', ''DC01 - 2,5 - A'']" "''DC01 - 2,5 - A''"]
  note t2 = parse_material_cases[OF l2[symmetric], THEN conjunct2, THEN conjunct2, THEN conjunct1,
      rule_format, of "''(a-b)''" "[]"]
  note t3 = parse_material_cases[OF l3[symmetric], THEN conjunct2, THEN conjunct1,
      rule_format, of "''STAL''" "[]"]
  have "parse_material ?t1 = (''DC01'', ''2,5 - A'')"
    using t1 c1 by (simp add: prod_eq_iff)
  moreover have "parse_material ''(a-b)'' = (''Brak'', ''Brak'')"
    using t2 c2 by simp
  moreover have "parse_material ''STAL'' = (''STAL'', ''Brak'')"
    using t3 c3 by (simp add: prod_eq_iff)
  ultimately show ?thesis by simp
qed

text \<open>
  Claim C5 as stated fails on the sentinel, which is \<^verbatim>\<open>Brak\<close>, and on an empty right part,
  which gives the empty string: the alternative of the conditional expression for \<^verbatim>\<open>grubosc\<close>
  is never taken, since the chosen line has a hyphen.
\<close>

theorem parse_material_counterexample:
  "parse_material '''' = (''Brak'', ''Brak'') \<and> parse_material '''' \<noteq> (''unknown'', ''unknown'')
   \<and> parse_material ''STEEL-'' = (''STEEL'', '''') \<and> snd (parse_material ''STEEL-'') \<noteq> ''unknown''"
  by code_simp

end
